theory Spec2Isabelle
  imports Complex_Main "HOL-Library.Monad_Syntax" "HOL-Library.Log_Nat"
begin

section \<open>Common Python values\<close>

text \<open>
  The three scripts raise \<open>ValueError\<close> themselves; \<open>KeyError\<close> is what a dict lookup
  with an absent key raises, \<open>OSError\<close> what the file system calls raise,
  \<open>OverflowError\<close> and \<open>ZeroDivisionError\<close> what the arithmetic raises, and
  \<open>RecursionError\<close> what the interpreter raises at a call beyond its recursion limit. An
  exception is the \<open>Raised\<close> outcome of a call, a normal return the \<open>Returned\<close> one.
\<close>

datatype error =
    ValueError string
  | KeyError string
  | OSError string
  | OverflowError string
  | ZeroDivisionError string
  | RecursionError

datatype 'a outcome = Returned 'a | Raised error

text \<open>\<open>str(n)\<close> of a Python int, as the f-strings of the scripts use it.\<close>

definition digit_char :: "nat \<Rightarrow> char" where
  "digit_char d = ''0123456789'' ! d"

fun str_nat :: "nat \<Rightarrow> string" where
  "str_nat n = (if n < 10 then [digit_char n] else str_nat (n div 10) @ [digit_char (n mod 10)])"

declare str_nat.simps [simp del]

definition str_int :: "int \<Rightarrow> string" where
  "str_int i = (if i < 0 then CHR ''-'' # str_nat (nat (- i)) else str_nat (nat i))"

section \<open>Towers of Hanoi (hanoi\_towers.py)\<close>

text \<open>
  The tower state is a \<open>dict[str, list[int]]\<close>: a map from peg names to lists of disks,
  the top of a peg being the last element of its list. Each peg holds a list of its own
  (as \<open>initialize_towers\<close> builds them), so the dict is modelled by value.
\<close>

type_synonym towers = "string \<rightharpoonup> int list"

definition initialize_towers :: "int \<Rightarrow> towers outcome" where
  "initialize_towers n =
     (if n < 1 then Raised (ValueError ''Number of disks must be at least 1'')
      else Returned [''A'' \<mapsto> rev [1..n], ''B'' \<mapsto> [], ''C'' \<mapsto> []])"

text \<open>
  \<open>move_disk\<close> mutates the dict in place, so the model returns the dict as it is after
  the call together with the outcome, also when the call raises. The destination list is
  read again after the pop, as \<open>towers[destination].append(disk)\<close> does.
\<close>

definition move_disk :: "towers \<Rightarrow> string \<Rightarrow> string \<Rightarrow> int outcome \<times> towers" where
  "move_disk towers source destination =
     (case towers source of
        None \<Rightarrow> (Raised (KeyError source), towers)
      | Some src \<Rightarrow>
          if src = [] then
            (Raised (ValueError (''Cannot move from empty tower '' @ source)), towers)
          else
            let disk = last src in
            (case towers destination of
               None \<Rightarrow> (Raised (KeyError destination), towers)
             | Some dst \<Rightarrow>
                 if dst \<noteq> [] \<and> last dst < disk then
                   (Raised (ValueError (''Cannot place disk '' @ str_int disk @
                       '' on smaller disk '' @ str_int (last dst))), towers)
                 else
                   let towers1 = towers(source \<mapsto> butlast src) in
                   (case towers1 destination of
                      None \<Rightarrow> (Raised (KeyError destination), towers1)
                    | Some dst1 \<Rightarrow> (Returned disk, towers1(destination \<mapsto> dst1 @ [disk])))))"

text \<open>
  What the program prints: a line of text, or the \<open>repr\<close> of the dict (\<open>print(towers)\<close>),
  kept as the dict itself.
\<close>

datatype line = Text string | Repr towers

text \<open>
  The observations of a run: \<open>stdout\<close> is the lines printed so far; \<open>moves\<close> is not a
  program variable but the record of every completed \<open>move_disk\<close> call made by the solver
  (source, destination, disk, and the dict after the call), in the order of the calls.
\<close>

record io =
  stdout :: "line list"
  moves :: "(string \<times> string \<times> int \<times> towers) list"

definition print_tower_state :: "towers \<Rightarrow> string \<Rightarrow> line list \<Rightarrow> line list" where
  "print_tower_state towers message out =
     (if message \<noteq> [] then out @ [Text message, Repr towers] else out @ [Repr towers])"

text \<open>
  Lines 90-93 and 97-100 of the source are the same three statements: call \<open>move_disk\<close>,
  then, under \<open>show_steps\<close>, print the move and the state.
\<close>

definition move_and_show ::
  "string \<Rightarrow> string \<Rightarrow> towers \<Rightarrow> bool \<Rightarrow> io \<Rightarrow> unit outcome \<times> towers \<times> io" where
  "move_and_show source destination towers show_steps w =
     (case move_disk towers source destination of
        (Raised e, towers1) \<Rightarrow> (Raised e, towers1, w)
      | (Returned disk, towers1) \<Rightarrow>
          let w1 = w\<lparr>moves := moves w @ [(source, destination, disk, towers1)]\<rparr>;
              w2 = (if show_steps then
                      w1\<lparr>stdout := print_tower_state towers1 ''Intermediate state:''
                          (stdout w1 @ [Text (''Move disk from '' @ source @ '' to '' @
                             destination @ '': '' @ str_int disk)])\<rparr>
                    else w1)
          in (Returned (), towers1, w2))"

text \<open>
  \<open>hanoi_recursive\<close> has no check of \<open>n\<close>: below 1 the recursion never reaches its base
  case. Here the stack is unbounded, and \<open>None\<close> is the call that does not come back; the
  interpreter's recursion limit is the subject of \<open>hanoi_recursive_limited\<close> below.
\<close>

partial_function (option) hanoi_recursive ::
  "int \<Rightarrow> string \<Rightarrow> string \<Rightarrow> string \<Rightarrow> towers \<Rightarrow> bool \<Rightarrow> io \<Rightarrow>
     (unit outcome \<times> towers \<times> io) option" where
  "hanoi_recursive n source destination auxiliary towers show_steps w =
     (if n = 1 then Some (move_and_show source destination towers show_steps w)
      else do {
        (r1, towers1, w1) \<leftarrow> hanoi_recursive (n - 1) source auxiliary destination towers show_steps w;
        case r1 of
          Raised e \<Rightarrow> Some (Raised e, towers1, w1)
        | Returned _ \<Rightarrow>
            (case move_and_show source destination towers1 show_steps w1 of
               (Raised e, towers2, w2) \<Rightarrow> Some (Raised e, towers2, w2)
             | (Returned _, towers2, w2) \<Rightarrow>
                 hanoi_recursive (n - 1) auxiliary destination source towers2 show_steps w2)
      })"

text \<open>
  The same function under the interpreter's recursion limit. The first argument is the
  number of nested calls of \<open>hanoi_recursive\<close> that the interpreter still allows; a call
  beyond it raises \<open>RecursionError\<close>, and the dict and the output are then as they were
  when that call was made. The calls of \<open>move_disk\<close> and \<open>print\<close> are taken to fit.
\<close>

fun hanoi_recursive_limited ::
  "nat \<Rightarrow> int \<Rightarrow> string \<Rightarrow> string \<Rightarrow> string \<Rightarrow> towers \<Rightarrow> bool \<Rightarrow> io \<Rightarrow>
     unit outcome \<times> towers \<times> io" where
  "hanoi_recursive_limited 0 n source destination auxiliary towers show_steps w =
     (Raised RecursionError, towers, w)"
| "hanoi_recursive_limited (Suc limit) n source destination auxiliary towers show_steps w =
     (if n = 1 then move_and_show source destination towers show_steps w
      else
        case hanoi_recursive_limited limit (n - 1) source auxiliary destination towers
               show_steps w of
          (Raised e, towers1, w1) \<Rightarrow> (Raised e, towers1, w1)
        | (Returned _, towers1, w1) \<Rightarrow>
            (case move_and_show source destination towers1 show_steps w1 of
               (Raised e, towers2, w2) \<Rightarrow> (Raised e, towers2, w2)
             | (Returned _, towers2, w2) \<Rightarrow>
                 hanoi_recursive_limited limit (n - 1) auxiliary destination source towers2
                   show_steps w2))"

definition solve_hanoi :: "int \<Rightarrow> bool \<Rightarrow> (towers outcome \<times> io) option" where
  "solve_hanoi n show_steps =
     (let w0 = \<lparr>stdout = [], moves = []\<rparr> in
      if n < 1 then Some (Raised (ValueError ''Number of disks must be at least 1''), w0)
      else
        case initialize_towers n of
          Raised e \<Rightarrow> Some (Raised e, w0)
        | Returned towers \<Rightarrow>
            let w1 = (if show_steps
                      then w0\<lparr>stdout := print_tower_state towers ''Initial state:'' (stdout w0)\<rparr>
                      else w0) in
            do {
              (r, towers1, w2) \<leftarrow> hanoi_recursive n ''A'' ''C'' ''B'' towers show_steps w1;
              case r of
                Raised e \<Rightarrow> Some (Raised e, w2)
              | Returned _ \<Rightarrow>
                  Some (Returned towers1,
                        if show_steps
                        then w2\<lparr>stdout := print_tower_state towers1 ''Final state:'' (stdout w2)\<rparr>
                        else w2)
            })"

text \<open>
  The stacking invariant of the spec: a peg's list is strictly decreasing from bottom
  (first element) to top (last element); a tower state is well stacked when every peg is.
\<close>

definition strictly_decreasing :: "int list \<Rightarrow> bool" where
  "strictly_decreasing xs = sorted_wrt (\<lambda>x y. y < x) xs"

definition pegs_decreasing :: "towers \<Rightarrow> bool" where
  "pegs_decreasing t = (\<forall>p\<in>dom t. strictly_decreasing (the (t p)))"

section \<open>File copier (file\_copier.py)\<close>

text \<open>
  A \<open>pathlib.Path\<close> is the list of its components; \<open>p / name\<close> appends a component.
  Names are ASCII strings. \<open>name\<close>, \<open>suffix\<close> and \<open>stem\<close> are those of pathlib (CPython
  3.11): with \<open>i = name.rfind('.')\<close>, the suffix is \<open>name[i:]\<close> when \<open>0 < i < len(name) - 1\<close>
  and empty otherwise.
\<close>

type_synonym path = "string list"

definition name :: "path \<Rightarrow> string" where
  "name p = (if p = [] then [] else last p)"

fun rfind :: "char \<Rightarrow> string \<Rightarrow> int" where
  "rfind c [] = - 1"
| "rfind c (x # xs) =
     (let r = rfind c xs in if 0 \<le> r then r + 1 else if x = c then 0 else - 1)"

definition suffix :: "path \<Rightarrow> string" where
  "suffix p =
     (let i = rfind CHR ''.'' (name p)
      in if 0 < i \<and> i < int (length (name p)) - 1 then drop (nat i) (name p) else [])"

definition stem :: "path \<Rightarrow> string" where
  "stem p =
     (let i = rfind CHR ''.'' (name p)
      in if 0 < i \<and> i < int (length (name p)) - 1 then take (nat i) (name p) else name p)"

definition lstrip :: "char \<Rightarrow> string \<Rightarrow> string" where
  "lstrip c s = dropWhile (\<lambda>x. x = c) s"

definition lower_char :: "char \<Rightarrow> char" where
  "lower_char c =
     (case map_of (zip ''ABCDEFGHIJKLMNOPQRSTUVWXYZ'' ''abcdefghijklmnopqrstuvwxyz'') c of
        Some l \<Rightarrow> l
      | None \<Rightarrow> c)"

definition lower :: "string \<Rightarrow> string" where
  "lower s = map lower_char s"

definition get_file_extension :: "path \<Rightarrow> string" where
  "get_file_extension file_path =
     (let extension = lstrip CHR ''.'' (suffix file_path)
      in if extension \<noteq> [] then lower extension else ''no_extension'')"

subsection \<open>The file system\<close>

text \<open>
  The file system is a tree: a file with its content and modification time, or a directory
  with its entries in the order in which the system lists them (an order the program has
  no say in). There are no links and no permissions. A path is resolved from the root.
\<close>

datatype node = File string nat | Dir "(string \<times> node) list"

fun lookup :: "node \<Rightarrow> path \<Rightarrow> node option" where
  "lookup n [] = Some n"
| "lookup (File c m) (x # xs) = None"
| "lookup (Dir es) (x # xs) = (case map_of es x of None \<Rightarrow> None | Some n \<Rightarrow> lookup n xs)"

definition exists :: "node \<Rightarrow> path \<Rightarrow> bool" where
  "exists fs p = (lookup fs p \<noteq> None)"

definition is_file :: "node \<Rightarrow> path \<Rightarrow> bool" where
  "is_file fs p = (case lookup fs p of Some (File c m) \<Rightarrow> True | _ \<Rightarrow> False)"

definition is_dir :: "node \<Rightarrow> path \<Rightarrow> bool" where
  "is_dir fs p = (case lookup fs p of Some (Dir es) \<Rightarrow> True | _ \<Rightarrow> False)"

text \<open>\<open>Path.iterdir\<close>: the children of a directory, as listed when the loop starts.\<close>

definition iterdir :: "node \<Rightarrow> path \<Rightarrow> path list outcome" where
  "iterdir fs p =
     (case lookup fs p of
        Some (Dir es) \<Rightarrow> Returned (map (\<lambda>e. p @ [fst e]) es)
      | Some (File c m) \<Rightarrow> Raised (OSError ''Not a directory'')
      | None \<Rightarrow> Raised (OSError ''No such file or directory''))"

text \<open>Replacing the entry of a name in a directory, or adding it at the end.\<close>

fun set_entry :: "string \<Rightarrow> node \<Rightarrow> (string \<times> node) list \<Rightarrow> (string \<times> node) list" where
  "set_entry x n [] = [(x, n)]"
| "set_entry x n (e # es) = (if fst e = x then (x, n) # es else e # set_entry x n es)"

text \<open>
  \<open>Path.mkdir(parents=True, exist_ok=True)\<close>: creates the directory and its missing
  ancestors; \<open>None\<close> is the \<open>OSError\<close> raised when a file is in the way.
\<close>

fun mkdir :: "node \<Rightarrow> path \<Rightarrow> node option" where
  "mkdir (Dir es) [] = Some (Dir es)"
| "mkdir (File c m) xs = None"
| "mkdir (Dir es) (x # xs) =
     (case mkdir (case map_of es x of None \<Rightarrow> Dir [] | Some n \<Rightarrow> n) xs of
        None \<Rightarrow> None
      | Some n' \<Rightarrow> Some (Dir (set_entry x n' es)))"

text \<open>
  Writing a file at a path whose parent directory exists; \<open>None\<close> is the \<open>OSError\<close> raised
  when the parent is missing or is a file, or when the path is a directory.
\<close>

fun write_file :: "node \<Rightarrow> path \<Rightarrow> string \<Rightarrow> nat \<Rightarrow> node option" where
  "write_file (File c0 m0) [] c m = Some (File c m)"
| "write_file (Dir es) [] c m = None"
| "write_file (File c0 m0) (x # xs) c m = None"
| "write_file (Dir es) [x] c m =
     (case map_of es x of
        Some (Dir es') \<Rightarrow> None
      | _ \<Rightarrow> Some (Dir (set_entry x (File c m) es)))"
| "write_file (Dir es) (x # xs) c m =
     (case map_of es x of
        None \<Rightarrow> None
      | Some n \<Rightarrow>
          (case write_file n xs c m of
             None \<Rightarrow> None
           | Some n' \<Rightarrow> Some (Dir (set_entry x n' es))))"

text \<open>
  \<open>shutil.copy2\<close> to a destination that does not exist: the content and the modification
  time of the source file are written to the destination.
\<close>

definition copy2 :: "node \<Rightarrow> path \<Rightarrow> path \<Rightarrow> node outcome" where
  "copy2 fs src dst =
     (case lookup fs src of
        Some (File c m) \<Rightarrow>
          (case write_file fs dst c m of
             Some fs' \<Rightarrow> Returned fs'
           | None \<Rightarrow> Raised (OSError ''Cannot create file''))
      | Some (Dir es) \<Rightarrow> Raised (OSError ''Is a directory'')
      | None \<Rightarrow> Raised (OSError ''No such file or directory''))"

text \<open>The paths of all files below a node, relative to it.\<close>

fun files_under :: "node \<Rightarrow> path list" where
  "files_under (File c m) = [[]]"
| "files_under (Dir es) = concat (map (\<lambda>e. map ((#) (fst e)) (files_under (snd e))) es)"

subsection \<open>The copier\<close>

text \<open>What the copier prints, on standard output and on standard error.\<close>

datatype copier_line =
    Copied path path
  | Error_copying path error
  | Error_accessing path error

record world =
  files :: node
  printed :: "copier_line list"

text \<open>
  The loop of lines 79-82: as long as the candidate exists, try the next numbered name.
  \<open>None\<close> is the loop that does not end.
\<close>

partial_function (option) free_name :: "node \<Rightarrow> path \<Rightarrow> path \<Rightarrow> path \<Rightarrow> nat \<Rightarrow> path option" where
  "free_name fs file_path extension_dir destination_file counter =
     (if exists fs destination_file
      then free_name fs file_path extension_dir
             (extension_dir @ [stem file_path @ ''_'' @ str_nat counter @ suffix file_path])
             (counter + 1)
      else Some destination_file)"

declare free_name.simps [code]

definition copy_file_to_destination ::
  "path \<Rightarrow> path \<Rightarrow> world \<Rightarrow> (unit outcome \<times> world) option" where
  "copy_file_to_destination file_path destination_base w =
     (let extension = get_file_extension file_path;
          extension_dir = destination_base @ [extension]
      in case mkdir (files w) extension_dir of
           None \<Rightarrow>
             Some (Raised (OSError ''File exists''),
                   w\<lparr>printed := printed w @ [Error_copying file_path (OSError ''File exists'')]\<rparr>)
         | Some fs1 \<Rightarrow>
             (case free_name fs1 file_path extension_dir (extension_dir @ [name file_path]) 1 of
                None \<Rightarrow> None
              | Some destination_file \<Rightarrow>
                  (case copy2 fs1 file_path destination_file of
                     Raised e \<Rightarrow>
                       Some (Raised e,
                             w\<lparr>files := fs1, printed := printed w @ [Error_copying file_path e]\<rparr>)
                   | Returned fs2 \<Rightarrow>
                       Some (Returned (),
                             w\<lparr>files := fs2,
                               printed := printed w @ [Copied file_path destination_file]\<rparr>))))"

text \<open>
  \<open>process_directory_recursive\<close> and its \<open>for\<close> loop. The first argument bounds the depth
  of the recursion; \<open>None\<close> is a run that needs a deeper recursion, or whose renaming loop
  does not end. An \<open>OSError\<close> leaves the loop, is reported and raised again.
\<close>

fun process_directory_recursive ::
    "nat \<Rightarrow> path \<Rightarrow> path \<Rightarrow> world \<Rightarrow> (unit outcome \<times> world) option"
  and process_items ::
    "nat \<Rightarrow> path list \<Rightarrow> path \<Rightarrow> world \<Rightarrow> (unit outcome \<times> world) option" where
  "process_directory_recursive 0 source_dir destination_dir w = None"
| "process_directory_recursive (Suc depth) source_dir destination_dir w =
     (case iterdir (files w) source_dir of
        Raised e \<Rightarrow>
          Some (Raised e, w\<lparr>printed := printed w @ [Error_accessing source_dir e]\<rparr>)
      | Returned items \<Rightarrow>
          (case process_items depth items destination_dir w of
             None \<Rightarrow> None
           | Some (Raised e, w') \<Rightarrow>
               Some (Raised e, w'\<lparr>printed := printed w' @ [Error_accessing source_dir e]\<rparr>)
           | Some (Returned u, w') \<Rightarrow> Some (Returned (), w')))"
| "process_items depth [] destination_dir w = Some (Returned (), w)"
| "process_items depth (item # items) destination_dir w =
     (case (if is_file (files w) item then copy_file_to_destination item destination_dir w
            else if is_dir (files w) item
                 then process_directory_recursive depth item destination_dir w
                 else Some (Returned (), w)) of
        None \<Rightarrow> None
      | Some (Raised e, w') \<Rightarrow> Some (Raised e, w')
      | Some (Returned u, w') \<Rightarrow> process_items depth items destination_dir w')"

section \<open>Koch snowflake (koch\_snowflake.py)\<close>

subsection \<open>Python numbers\<close>

text \<open>
  A Python number is an \<open>int\<close> or a \<open>float\<close>. A finite float is the rational number it
  stands for (IEEE 754 binary64: 53 bits of precision, least exponent \<open>-1074\<close>, magnitude
  below \<open>2^1024\<close>); infinities and NaN are outside the model. \<open>round64\<close> rounds a rational
  to the nearest float, ties to even, whatever its magnitude.
\<close>

datatype number = PyInt int | PyFloat rat

definition val :: "number \<Rightarrow> rat" where
  "val x = (case x of PyInt i \<Rightarrow> of_int i | PyFloat r \<Rightarrow> r)"

definition pow2 :: "int \<Rightarrow> rat" where
  "pow2 k = (if 0 \<le> k then 2 ^ nat k else 1 / 2 ^ nat (- k))"

definition floor_log2 :: "rat \<Rightarrow> int" where
  "floor_log2 x =
     (let (p, q) = quotient_of x; d = bitlen p - bitlen q
      in if pow2 d \<le> x then d else d - 1)"

definition round_half_even :: "rat \<Rightarrow> int" where
  "round_half_even x =
     (let f = \<lfloor>x\<rfloor>; r = x - of_int f
      in if r < 1 / 2 then f else if 1 / 2 < r then f + 1 else if even f then f else f + 1)"

definition round64 :: "rat \<Rightarrow> rat" where
  "round64 x =
     (if x = 0 then 0
      else let q = max (floor_log2 \<bar>x\<bar> - 52) (- 1074)
           in sgn x * of_int (round_half_even (\<bar>x\<bar> / pow2 q)) * pow2 q)"

text \<open>
  \<open>float(x)\<close>, as the arithmetic applies it to an \<open>int\<close> operand next to a \<open>float\<close>: an
  int whose rounded value is beyond the largest float raises \<open>OverflowError\<close>.
\<close>

definition to_float :: "number \<Rightarrow> rat outcome" where
  "to_float x =
     (case x of
        PyInt i \<Rightarrow>
          if pow2 1024 \<le> \<bar>round64 (of_int i)\<bar>
          then Raised (OverflowError ''int too large to convert to float'')
          else Returned (round64 (of_int i))
      | PyFloat r \<Rightarrow> Returned r)"

text \<open>
  True division as the program uses it. \<open>truediv_3_0 x\<close> is \<open>x / 3.0\<close>: the operand is
  converted and the quotient of the two floats is rounded; it is smaller than the operand,
  so it stays within the floats. \<open>truediv_int x k\<close> is \<open>x / k\<close> for an int \<open>k\<close> (the program
  has \<open>2\<close> and \<open>3\<close>): of two ints, the exact quotient rounded once, with \<open>OverflowError\<close>
  when that is beyond the largest float; of a float and an int, the quotient of the float
  and the converted int.
\<close>

definition truediv_3_0 :: "number \<Rightarrow> number outcome" where
  "truediv_3_0 x =
     (case to_float x of
        Raised e \<Rightarrow> Raised e
      | Returned f \<Rightarrow> Returned (PyFloat (round64 (f / 3))))"

definition truediv_int :: "number \<Rightarrow> int \<Rightarrow> number outcome" where
  "truediv_int x k =
     (case x of
        PyInt a \<Rightarrow>
          if k = 0 then Raised (ZeroDivisionError ''division by zero'')
          else if pow2 1024 \<le> \<bar>round64 (of_int a / of_int k)\<bar>
          then Raised (OverflowError ''integer division result too large for a float'')
          else Returned (PyFloat (round64 (of_int a / of_int k)))
      | PyFloat f \<Rightarrow>
          (case to_float (PyInt k) of
             Raised e \<Rightarrow> Raised e
           | Returned g \<Rightarrow>
               if g = 0 then Raised (ZeroDivisionError ''float division by zero'')
               else Returned (PyFloat (round64 (f / g)))))"

definition neg :: "number \<Rightarrow> number" where
  "neg x = (case x of PyInt i \<Rightarrow> PyInt (- i) | PyFloat r \<Rightarrow> PyFloat (- r))"

subsection \<open>The turtle\<close>

text \<open>
  The graphics calls made so far, in order, stand for the state of the screen and of the
  turtle; each function takes the calls made before it and returns them with its own.
\<close>

datatype gfx =
    Screen
  | Bgcolor string
  | Title string
  | Turtle
  | Speed int
  | Color string
  | Penup
  | Goto number number
  | Pendown
  | Forward number
  | Left int
  | Right int
  | Hideturtle
  | Mainloop

text \<open>
  \<open>koch_curve\<close> has no check of \<open>level\<close>: below 0 the recursion never reaches its base
  case, and \<open>None\<close> is the call that does not come back. An exception of the division
  leaves the function at once, with the calls made so far. The parameter \<open>length\<close> of the
  source is \<open>len\<close> here.
\<close>

partial_function (option) koch_curve ::
  "gfx list \<Rightarrow> number \<Rightarrow> int \<Rightarrow> (unit outcome \<times> gfx list) option" where
  "koch_curve t len level =
     (if level = 0 then Some (Returned (), t @ [Forward len])
      else
        case truediv_3_0 len of
          Raised e \<Rightarrow> Some (Raised e, t)
        | Returned len1 \<Rightarrow>
            do {
              (r1, t1) \<leftarrow> koch_curve t len1 (level - 1);
              case r1 of
                Raised e \<Rightarrow> Some (Raised e, t1)
              | Returned _ \<Rightarrow>
                  do {
                    (r2, t2) \<leftarrow> koch_curve (t1 @ [Left 60]) len1 (level - 1);
                    case r2 of
                      Raised e \<Rightarrow> Some (Raised e, t2)
                    | Returned _ \<Rightarrow>
                        do {
                          (r3, t3) \<leftarrow> koch_curve (t2 @ [Right 120]) len1 (level - 1);
                          case r3 of
                            Raised e \<Rightarrow> Some (Raised e, t3)
                          | Returned _ \<Rightarrow> koch_curve (t3 @ [Left 60]) len1 (level - 1)
                        }
                  }
            })"

declare koch_curve.simps [code]

text \<open>The loop \<open>for _ in range(3)\<close> of \<open>draw_koch_snowflake\<close>.\<close>

fun snowflake_sides ::
  "nat \<Rightarrow> gfx list \<Rightarrow> number \<Rightarrow> int \<Rightarrow> (unit outcome \<times> gfx list) option" where
  "snowflake_sides 0 t len level = Some (Returned (), t)"
| "snowflake_sides (Suc k) t len level =
     do {
       (r, t1) \<leftarrow> koch_curve t len level;
       case r of
         Raised e \<Rightarrow> Some (Raised e, t1)
       | Returned _ \<Rightarrow> snowflake_sides k (t1 @ [Right 120]) len level
     }"

text \<open>
  The arguments of \<open>t.goto(-length / 2, length / 3)\<close> are computed, left to right, before
  the call is made.
\<close>

definition draw_koch_snowflake :: "number \<Rightarrow> int \<Rightarrow> (unit outcome \<times> gfx list) option" where
  "draw_koch_snowflake len level =
     (if level < 0 then Some (Raised (ValueError ''Recursion level must be non-negative''), [])
      else if val len \<le> 0 then Some (Raised (ValueError ''Length must be positive''), [])
      else
        let t = [Screen, Bgcolor ''white'',
                 Title (''Koch Snowflake - Level '' @ str_int level),
                 Turtle, Speed 0, Color ''blue'', Penup]
        in case truediv_int (neg len) 2 of
             Raised e \<Rightarrow> Some (Raised e, t)
           | Returned x \<Rightarrow>
               (case truediv_int len 3 of
                  Raised e \<Rightarrow> Some (Raised e, t)
                | Returned y \<Rightarrow>
                    do {
                      (r, t1) \<leftarrow> snowflake_sides 3 (t @ [Goto x y, Pendown]) len level;
                      case r of
                        Raised e \<Rightarrow> Some (Raised e, t1)
                      | Returned _ \<Rightarrow> Some (Returned (), t1 @ [Hideturtle, Mainloop])
                    }))"

text \<open>The lengths of the \<open>forward\<close> calls and the net left turn, in degrees, of a list of calls.\<close>

fun forwards :: "gfx list \<Rightarrow> number list" where
  "forwards [] = []"
| "forwards (Forward x # cs) = x # forwards cs"
| "forwards (c # cs) = forwards cs"

fun net_turn :: "gfx list \<Rightarrow> int" where
  "net_turn [] = 0"
| "net_turn (Left a # cs) = a + net_turn cs"
| "net_turn (Right a # cs) = net_turn cs - a"
| "net_turn (c # cs) = net_turn cs"

text \<open>
  The bounds of one rounding: half a unit in the last place of a normal float, relative to
  the number, and half the least subnormal.
\<close>

definition rounding_unit :: rat where
  "rounding_unit = 1 / 2 ^ 53"

definition least_half :: rat where
  "least_half = pow2 (- 1075)"

text \<open>
  The length of a segment after \<open>k\<close> levels, starting from a float: \<open>k\<close> divisions by
  \<open>3.0\<close>, each rounded.
\<close>

definition segment :: "nat \<Rightarrow> rat \<Rightarrow> rat" where
  "segment k f = ((\<lambda>x. round64 (x / 3)) ^^ k) f"

section \<open>Hanoi: the recursive transfer\<close>

lemma strictly_decreasing_snoc:
  "strictly_decreasing (xs @ [k]) \<longleftrightarrow> strictly_decreasing xs \<and> (\<forall>x\<in>set xs. k < x)"
  by (auto simp: strictly_decreasing_def sorted_wrt_append)

lemma strictly_decreasing_countdown:
  "strictly_decreasing (xs @ [k]) \<Longrightarrow> n \<le> k \<Longrightarrow> strictly_decreasing (xs @ rev [1..n])"
  by (auto simp: strictly_decreasing_def sorted_wrt_append sorted_wrt_rev
        intro!: sorted_wrt_mono_rel[of "[1..n]" "(<)" "\<lambda>x y. x < y"] 
        simp flip: strict_sorted_iff)

lemma rev_upto_step: "1 \<le> n \<Longrightarrow> rev [1..n + 1] = (n + 1) # rev [1..n]"
  by (simp add: upto_rec2)

lemma move_and_show_ok:
  assumes "tw s = Some (S @ [k])" "tw d = Some D" "s \<noteq> d" "strictly_decreasing (D @ [k])"
  shows "\<exists>w'. move_and_show s d tw b w = (Returned (), tw(s \<mapsto> S, d \<mapsto> D @ [k]), w')
          \<and> moves w' = moves w @ [(s, d, k, tw(s \<mapsto> S, d \<mapsto> D @ [k]))]
          \<and> (\<not> b \<longrightarrow> stdout w' = stdout w)"
proof -
  have "D = [] \<or> \<not> last D < k"
  proof (cases "D = []")
    case False
    then have "last D \<in> set D" by simp
    then have "k < last D" using assms(4) by (simp add: strictly_decreasing_snoc)
    then show ?thesis by simp
  qed simp
  then have "move_disk tw s d = (Returned k, tw(s \<mapsto> S, d \<mapsto> D @ [k]))"
    using assms(1-3) by (auto simp: move_disk_def)
  then show ?thesis
    by (simp add: move_and_show_def Let_def)
qed

lemma pegs_decreasing_upd:
  "pegs_decreasing t \<Longrightarrow> strictly_decreasing xs \<Longrightarrow> pegs_decreasing (t(p \<mapsto> xs))"
  by (auto simp: pegs_decreasing_def)

lemma hanoi_recursive_transfers:
  assumes "1 \<le> n"
  shows "s \<noteq> d \<Longrightarrow> s \<noteq> a \<Longrightarrow> d \<noteq> a \<Longrightarrow>
     tw s = Some (S @ rev [1..n]) \<Longrightarrow> tw d = Some D \<Longrightarrow> tw a = Some A \<Longrightarrow>
     strictly_decreasing (S @ [n]) \<Longrightarrow> strictly_decreasing (D @ [n]) \<Longrightarrow>
     strictly_decreasing (A @ [n]) \<Longrightarrow> pegs_decreasing tw \<Longrightarrow>
     \<exists>w' ms. hanoi_recursive n s d a tw b w =
                Some (Returned (), tw(s \<mapsto> S, d \<mapsto> D @ rev [1..n]), w')
          \<and> moves w' = moves w @ ms \<and> length ms = 2 ^ nat n - 1
          \<and> (\<forall>m\<in>set ms. pegs_decreasing (snd (snd (snd m))))
          \<and> pegs_decreasing (tw(s \<mapsto> S, d \<mapsto> D @ rev [1..n]))
          \<and> (\<not> b \<longrightarrow> stdout w' = stdout w)"
  using assms
proof (induction n arbitrary: s d a tw S D A w rule: int_ge_induct)
  case base
  let ?t = "tw(s \<mapsto> S, d \<mapsto> D @ [1])"
  from base have src: "tw s = Some (S @ [1])" by simp
  obtain w' where w': "move_and_show s d tw b w = (Returned (), ?t, w')"
      "moves w' = moves w @ [(s, d, 1, ?t)]" "\<not> b \<longrightarrow> stdout w' = stdout w"
    using move_and_show_ok[OF src base(5) base(1) base(8)] by blast
  have dec: "pegs_decreasing ?t"
    using base(7,8,10) by (auto simp: strictly_decreasing_snoc intro!: pegs_decreasing_upd)
  have "hanoi_recursive 1 s d a tw b w = Some (Returned (), ?t, w')"
    by (subst hanoi_recursive.simps) (simp add: w')
  with w' dec show ?case by (simp del: fun_upd_apply)
next
  case (step n)
  let ?t1 = "tw(s \<mapsto> S @ [n + 1], a \<mapsto> A @ rev [1..n])"
  let ?t2 = "?t1(s \<mapsto> S, d \<mapsto> D @ [n + 1])"
  let ?t3 = "?t2(a \<mapsto> A, d \<mapsto> (D @ [n + 1]) @ rev [1..n])"
  have src: "tw s = Some ((S @ [n + 1]) @ rev [1..n])"
    using step.prems(4) step.hyps by (simp add: rev_upto_step)
  have S1: "strictly_decreasing ((S @ [n + 1]) @ [n])"
    and A1: "strictly_decreasing (A @ [n])" and D1: "strictly_decreasing (D @ [n])"
    and S0: "strictly_decreasing (S @ [n])"
    and D2: "strictly_decreasing ((D @ [n + 1]) @ [n])"
    using step.prems(7,8,9) by (auto simp: strictly_decreasing_def sorted_wrt_append)
  obtain w1 ms1 where r1:
      "hanoi_recursive n s a d tw b w = Some (Returned (), ?t1, w1)"
      "moves w1 = moves w @ ms1" "length ms1 = 2 ^ nat n - 1"
      "\<forall>m\<in>set ms1. pegs_decreasing (snd (snd (snd m)))"
      "pegs_decreasing ?t1" "\<not> b \<longrightarrow> stdout w1 = stdout w"
    using step.IH[OF step.prems(2) step.prems(1) _ src step.prems(6) step.prems(5) S1 A1 D1
        step.prems(10), where w = w] step.prems(3) by blast
  have "?t1 s = Some (S @ [n + 1])" "?t1 d = Some D"
    using step.prems by auto
  from move_and_show_ok[OF this step.prems(1) step.prems(8), of b w1]
  obtain w2 where r2: "move_and_show s d ?t1 b w1 = (Returned (), ?t2, w2)"
      "moves w2 = moves w1 @ [(s, d, n + 1, ?t2)]" "\<not> b \<longrightarrow> stdout w2 = stdout w1"
    by blast
  have Sd: "strictly_decreasing S" and Dd: "strictly_decreasing (D @ [n + 1])"
    using step.prems(7,8) by (simp_all add: strictly_decreasing_snoc)
  have dec2: "pegs_decreasing ?t2"
    by (rule pegs_decreasing_upd[OF pegs_decreasing_upd[OF r1(5) Sd] Dd])
  have "?t2 a = Some (A @ rev [1..n])" "?t2 d = Some (D @ [n + 1])" "?t2 s = Some S"
    using step.prems by auto
  from step.IH[OF _ _ _ this A1 D2 S0 dec2, where w = w2] step.prems(1-3)
  obtain w3 ms3 where r3:
      "hanoi_recursive n a d s ?t2 b w2 = Some (Returned (), ?t3, w3)"
      "moves w3 = moves w2 @ ms3" "length ms3 = 2 ^ nat n - 1"
      "\<forall>m\<in>set ms3. pegs_decreasing (snd (snd (snd m)))"
      "pegs_decreasing ?t3" "\<not> b \<longrightarrow> stdout w3 = stdout w2"
    by blast
  have t3: "?t3 = tw(s \<mapsto> S, d \<mapsto> D @ rev [1..n + 1])"
    using step.prems(1-6) step.hyps by (auto simp: fun_eq_iff rev_upto_step)
  have run: "hanoi_recursive (n + 1) s d a tw b w = Some (Returned (), ?t3, w3)"
    using step.hyps r3(1) by (subst hanoi_recursive.simps) (simp add: r1 r2)
  have len: "length (ms1 @ (s, d, n + 1, ?t2) # ms3) = 2 ^ nat (n + 1) - 1"
    using step.hyps r1(3) r3(3) by (simp add: nat_add_distrib)
  have "moves w3 = moves w @ (ms1 @ (s, d, n + 1, ?t2) # ms3)"
    using r1(2) r2(2) r3(2) by simp
  moreover have "\<forall>m\<in>set (ms1 @ (s, d, n + 1, ?t2) # ms3). pegs_decreasing (snd (snd (snd m)))"
    using r1(4) r3(4) dec2 by auto
  moreover have "\<not> b \<longrightarrow> stdout w3 = stdout w"
    using r1(6) r2(3) r3(6) by simp
  ultimately show ?case
    using run len r3(5) unfolding t3 by blast
qed

lemma hanoi_recursive_returns_only_from_1:
  assumes "hanoi_recursive n s d a tw b w = Some r"
  shows "1 \<le> n"
proof (rule hanoi_recursive.raw_induct[OF _ assms, where P = "\<lambda>n _ _ _ _ _ _ _. 1 \<le> n"])
  fix h :: "int \<Rightarrow> string \<Rightarrow> string \<Rightarrow> string \<Rightarrow> towers \<Rightarrow> bool \<Rightarrow> io \<Rightarrow>
     (unit outcome \<times> towers \<times> io) option"
  fix n s d a tw b w r
  assume IH: "\<And>n s d a tw b w y. h n s d a tw b w = Some y \<Longrightarrow> 1 \<le> n"
  assume body: "(if n = 1 then Some (move_and_show s d tw b w)
      else h (n - 1) s a d tw b w \<bind>
           (\<lambda>(r1, towers1, w1).
               case r1 of
               Returned x \<Rightarrow>
                 (case move_and_show s d towers1 b w1 of
                 (Returned x, towers2, w2) \<Rightarrow> h (n - 1) a d s towers2 b w2
                 | (Raised e, towers2, w2) \<Rightarrow> Some (Raised e, towers2, w2))
               | Raised e \<Rightarrow> Some (Raised e, towers1, w1))) = Some r"
  show "1 \<le> n"
  proof (cases "n = 1")
    case False
    with body obtain r1 where "h (n - 1) s a d tw b w = Some r1"
      by (auto simp: bind_eq_Some_conv)
    then have "1 \<le> n - 1" by (rule IH)
    then show ?thesis by simp
  qed simp
qed

lemma hanoi_recursive_diverges: "n < 1 \<Longrightarrow> hanoi_recursive n s d a tw b w = None"
  using hanoi_recursive_returns_only_from_1[of n s d a tw b w] by (cases "hanoi_recursive n s d a tw b w") auto

lemma strictly_decreasing_rev_upto: "strictly_decreasing (rev [1..n])"
  using strictly_decreasing_countdown[of "[]" n n] by (simp add: strictly_decreasing_def)

lemma solve_hanoi_run:
  assumes "1 \<le> n"
  shows "\<exists>w. solve_hanoi n show_steps =
            Some (Returned [''A'' \<mapsto> [], ''B'' \<mapsto> [], ''C'' \<mapsto> rev [1..n]], w)
          \<and> length (moves w) = 2 ^ nat n - 1
          \<and> (\<forall>m\<in>set (moves w). pegs_decreasing (snd (snd (snd m))))
          \<and> (\<not> show_steps \<longrightarrow> stdout w = [])"
proof -
  let ?t0 = "[''A'' \<mapsto> rev [1..n], ''B'' \<mapsto> [], ''C'' \<mapsto> []]"
  let ?w1 = "if show_steps
             then \<lparr>stdout = [], moves = []\<rparr>\<lparr>stdout := print_tower_state ?t0 ''Initial state:'' []\<rparr>
             else \<lparr>stdout = [], moves = []\<rparr>"
  have dec0: "pegs_decreasing ?t0"
    by (simp add: pegs_decreasing_def strictly_decreasing_rev_upto) (simp add: strictly_decreasing_def)
  have "\<exists>w' ms. hanoi_recursive n ''A'' ''C'' ''B'' ?t0 show_steps ?w1 =
                Some (Returned (), ?t0(''A'' \<mapsto> [], ''C'' \<mapsto> [] @ rev [1..n]), w')
          \<and> moves w' = moves ?w1 @ ms \<and> length ms = 2 ^ nat n - 1
          \<and> (\<forall>m\<in>set ms. pegs_decreasing (snd (snd (snd m))))
          \<and> pegs_decreasing (?t0(''A'' \<mapsto> [], ''C'' \<mapsto> [] @ rev [1..n]))
          \<and> (\<not> show_steps \<longrightarrow> stdout w' = stdout ?w1)"
    by (rule hanoi_recursive_transfers[OF assms, where S = "[]" and D = "[]" and A = "[]"])
       (simp_all add: dec0 strictly_decreasing_def)
  then obtain w' ms where run:
      "hanoi_recursive n ''A'' ''C'' ''B'' ?t0 show_steps ?w1 =
         Some (Returned (), ?t0(''A'' \<mapsto> [], ''C'' \<mapsto> [] @ rev [1..n]), w')"
      "moves w' = moves ?w1 @ ms" "length ms = 2 ^ nat n - 1"
      "\<forall>m\<in>set ms. pegs_decreasing (snd (snd (snd m)))"
      "\<not> show_steps \<longrightarrow> stdout w' = stdout ?w1"
    by blast
  have fin: "?t0(''A'' \<mapsto> [], ''C'' \<mapsto> [] @ rev [1..n]) = [''A'' \<mapsto> [], ''B'' \<mapsto> [], ''C'' \<mapsto> rev [1..n]]"
    by (auto simp: fun_eq_iff)
  have mv: "moves w' = ms" using run(2) by simp
  show ?thesis
  proof (cases show_steps)
    case True
    with assms run(1) have "solve_hanoi n show_steps =
       Some (Returned [''A'' \<mapsto> [], ''B'' \<mapsto> [], ''C'' \<mapsto> rev [1..n]],
             w'\<lparr>stdout := print_tower_state [''A'' \<mapsto> [], ''B'' \<mapsto> [], ''C'' \<mapsto> rev [1..n]] ''Final state:'' (stdout w')\<rparr>)"
      unfolding fin by (simp add: solve_hanoi_def initialize_towers_def)
    with True mv run(3,4) show ?thesis by auto
  next
    case False
    with assms run(1) have "solve_hanoi n show_steps =
       Some (Returned [''A'' \<mapsto> [], ''B'' \<mapsto> [], ''C'' \<mapsto> rev [1..n]], w')"
      unfolding fin by (simp add: solve_hanoi_def initialize_towers_def)
    with False mv run(3,4,5) show ?thesis by auto
  qed
qed



text \<open>
  Under a recursion limit: below 1 the descent runs into the limit before any disk is
  moved or anything is printed, whatever the limit is; from 1 on, a limit of at least \<open>n\<close>
  nested calls is enough, and the run is then the one of \<open>hanoi_recursive\<close>.
\<close>

lemma hanoi_recursive_limited_below_one:
  "n < 1 \<Longrightarrow>
   hanoi_recursive_limited limit n s d a tw b w = (Raised RecursionError, tw, w)"
proof (induction limit arbitrary: n s d a)
  case 0
  show ?case by simp
next
  case (Suc limit)
  from Suc.prems have "n - 1 < 1" and "n \<noteq> 1" by simp_all
  with Suc.IH[of "n - 1" s a d] show ?case by simp
qed

lemma hanoi_recursive_limited_agrees:
  assumes "1 \<le> n"
  shows "nat n \<le> limit \<Longrightarrow>
   hanoi_recursive n s d a tw b w = Some (hanoi_recursive_limited limit n s d a tw b w)"
  using assms
proof (induction n arbitrary: limit s d a tw w rule: int_ge_induct)
  case base
  then obtain k where k: "limit = Suc k" by (cases limit) auto
  show ?case unfolding k by (subst hanoi_recursive.simps) simp
next
  case (step n)
  from step.prems step.hyps obtain k where k: "limit = Suc k" and kn: "nat n \<le> k"
    by (cases limit) auto
  have ne: "n + 1 \<noteq> 1" using step.hyps by simp
  note IH = step.IH[OF kn]
  show ?case
    unfolding k
    by (subst hanoi_recursive.simps)
       (simp add: ne IH split: prod.splits outcome.splits)
qed

section \<open>Hanoi: the claims\<close>

text \<open>
  The spec's concrete case \<open>n = 2\<close>, by evaluation: three moves, A to B (disk 1), A to C
  (disk 2), B to C (disk 1), and the final state \<open>{A: [], B: [], C: [2, 1]}\<close>.
\<close>

lemma solve_hanoi_2:
  "solve_hanoi 2 False =
     Some (Returned [''A'' \<mapsto> [], ''B'' \<mapsto> [], ''C'' \<mapsto> [2, 1]],
           \<lparr>stdout = [],
            moves = [(''A'', ''B'', 1, [''A'' \<mapsto> [2], ''B'' \<mapsto> [1], ''C'' \<mapsto> []]),
                     (''A'', ''C'', 2, [''A'' \<mapsto> [], ''B'' \<mapsto> [1], ''C'' \<mapsto> [2]]),
                     (''B'', ''C'', 1, [''A'' \<mapsto> [], ''B'' \<mapsto> [], ''C'' \<mapsto> [2, 1]])]\<rparr>)"
  by (simp add: solve_hanoi_def initialize_towers_def hanoi_recursive.simps move_and_show_def
      move_disk_def Let_def upto.simps fun_eq_iff)

text \<open>
  C1. For every \<open>n \<ge> 1\<close>, \<open>solve_hanoi n\<close> returns, after exactly \<open>2^n - 1\<close> completed disk
  moves, the state in which peg C holds \<open>n, n-1, ..., 1\<close> from bottom to top and pegs A and
  B are empty.
\<close>

theorem solve_hanoi_moves_and_final_state:
  "1 \<le> n \<Longrightarrow>
   \<exists>w. solve_hanoi n show_steps =
          Some (Returned [''A'' \<mapsto> [], ''B'' \<mapsto> [], ''C'' \<mapsto> rev [1..n]], w)
      \<and> length (moves w) = 2 ^ nat n - 1"
  using solve_hanoi_run[of n show_steps] by blast

theorem solve_hanoi_moves_and_final_state_witness:
  "(1::int) \<le> 3 \<and>
   (\<exists>w. solve_hanoi 3 True =
          Some (Returned [''A'' \<mapsto> [], ''B'' \<mapsto> [], ''C'' \<mapsto> [3, 2, 1]], w)
      \<and> length (moves w) = 7)"
  using solve_hanoi_moves_and_final_state[of 3 True] by (simp add: upto_rec1)

text \<open>
  C2. For every \<open>n \<ge> 1\<close>, every tower state of the run of \<open>solve_hanoi n\<close> (the initial
  state built by \<open>initialize_towers\<close>, the state after each completed disk move, and the
  state returned) has every peg strictly decreasing from bottom to top.
\<close>

theorem solve_hanoi_states_decreasing:
  "1 \<le> n \<Longrightarrow>
   \<exists>t0 t w. initialize_towers n = Returned t0
      \<and> solve_hanoi n show_steps = Some (Returned t, w)
      \<and> list_all pegs_decreasing (t0 # map (\<lambda>m. snd (snd (snd m))) (moves w) @ [t])"
proof -
  assume n: "1 \<le> n"
  let ?ini = "[''A'' \<mapsto> rev [1..n], ''B'' \<mapsto> [], ''C'' \<mapsto> []]"
  let ?fin = "[''A'' \<mapsto> [], ''B'' \<mapsto> [], ''C'' \<mapsto> rev [1..n]]"
  have empty: "strictly_decreasing []" by (simp add: strictly_decreasing_def)
  have "pegs_decreasing ?ini" "pegs_decreasing ?fin"
    by (simp_all add: pegs_decreasing_def strictly_decreasing_rev_upto empty)
  moreover have "initialize_towers n = Returned ?ini"
    using n by (simp add: initialize_towers_def)
  moreover obtain w where "solve_hanoi n show_steps = Some (Returned ?fin, w)"
      "\<forall>m\<in>set (moves w). pegs_decreasing (snd (snd (snd m)))"
    using solve_hanoi_run[OF n, of show_steps] by blast
  ultimately have "initialize_towers n = Returned ?ini
      \<and> solve_hanoi n show_steps = Some (Returned ?fin, w)
      \<and> list_all pegs_decreasing (?ini # map (\<lambda>m. snd (snd (snd m))) (moves w) @ [?fin])"
    by (simp add: list_all_iff del: fun_upd_apply)
  then show ?thesis by blast
qed

theorem solve_hanoi_states_decreasing_witness:
  "(1::int) \<le> 2 \<and>
   (\<exists>t0 t w. initialize_towers 2 = Returned t0
      \<and> solve_hanoi 2 False = Some (Returned t, w)
      \<and> list_all pegs_decreasing (t0 # map (\<lambda>m. snd (snd (snd m))) (moves w) @ [t]))"
  using solve_hanoi_states_decreasing[of 2 False] by simp

text \<open>
  C3, as the claim states it, wants \<open>move_disk\<close> to fail unless the destination is empty
  or its top disk is strictly larger than the disk moved. The source rejects only a
  destination top that is strictly smaller (\<open>towers[destination][-1] < disk\<close>): with the
  destination top equal to the disk, as when source and destination are the same peg,
  the call succeeds.
\<close>

theorem move_disk_equal_top_counterexample:
  "[''A'' \<mapsto> [3, 2, 1], ''B'' \<mapsto> [], ''C'' \<mapsto> []] ''A'' = Some [3, 2, 1]
   \<and> [3, 2, 1] \<noteq> ([] :: int list)
   \<and> \<not> last [3, 2, 1 :: int] < last [3, 2, 1]
   \<and> move_disk [''A'' \<mapsto> [3, 2, 1], ''B'' \<mapsto> [], ''C'' \<mapsto> []] ''A'' ''A''
       = (Returned 1, [''A'' \<mapsto> [3, 2, 1], ''B'' \<mapsto> [], ''C'' \<mapsto> []])"
  by (simp add: move_disk_def fun_eq_iff)

text \<open>
  C3, amended. For every tower state and pegs \<open>source\<close>, \<open>destination\<close> of it:
  \<open>move_disk\<close> fails with a \<open>ValueError\<close> when the source peg is empty, and fails with a
  \<open>ValueError\<close> when the destination peg is not empty and its top disk is strictly smaller
  than the source's top disk; otherwise (destination empty, or its top not smaller than the
  disk) it succeeds: it pops the source's top disk, pushes it onto the destination and
  returns that disk, which leaves the state as it was when source and destination are the
  same peg. Whenever it fails, for whatever reason, the tower state is unchanged.
\<close>

theorem move_disk_contract:
  assumes "towers source = Some src" and "towers destination = Some dst"
  shows "(src = [] \<longrightarrow>
            move_disk towers source destination =
              (Raised (ValueError (''Cannot move from empty tower '' @ source)), towers))
       \<and> (src \<noteq> [] \<and> dst \<noteq> [] \<and> last dst < last src \<longrightarrow>
            (\<exists>m. move_disk towers source destination = (Raised (ValueError m), towers)))
       \<and> (src \<noteq> [] \<and> (dst = [] \<or> last src \<le> last dst) \<longrightarrow>
            move_disk towers source destination =
              (Returned (last src),
               if source = destination then towers
               else towers(source \<mapsto> butlast src, destination \<mapsto> dst @ [last src])))
       \<and> (\<forall>e t. move_disk towers source destination = (Raised e, t) \<longrightarrow> t = towers)"
  using assms
  by (auto simp: move_disk_def Let_def fun_eq_iff split: option.splits if_splits)

theorem move_disk_contract_witness:
  "[''A'' \<mapsto> [3, 2], ''B'' \<mapsto> [], ''C'' \<mapsto> [1]] ''A'' = Some [3, 2]
   \<and> [''A'' \<mapsto> [3, 2], ''B'' \<mapsto> [], ''C'' \<mapsto> [1]] ''B'' = Some []
   \<and> move_disk [''A'' \<mapsto> [3, 2], ''B'' \<mapsto> [], ''C'' \<mapsto> [1]] ''A'' ''B''
       = (Returned 2, [''A'' \<mapsto> [3], ''B'' \<mapsto> [2], ''C'' \<mapsto> [1]])"
  using move_disk_contract[of "[''A'' \<mapsto> [3, 2], ''B'' \<mapsto> [], ''C'' \<mapsto> [1]]"
      "''A''" "[3, 2]" "''B''" "[]"]
  by (simp add: fun_eq_iff)

text \<open>What the other branches do on the same state: a size violation, an empty source.\<close>

lemma move_disk_size_violation:
  "move_disk [''A'' \<mapsto> [3, 2], ''B'' \<mapsto> [], ''C'' \<mapsto> [1]] ''A'' ''C'' =
     (Raised (ValueError ''Cannot place disk 2 on smaller disk 1''),
      [''A'' \<mapsto> [3, 2], ''B'' \<mapsto> [], ''C'' \<mapsto> [1]])"
  by (simp add: move_disk_def str_int_def str_nat.simps digit_char_def)

lemma move_disk_empty_source:
  "move_disk [''A'' \<mapsto> [3, 2], ''B'' \<mapsto> [], ''C'' \<mapsto> [1]] ''B'' ''C'' =
     (Raised (ValueError ''Cannot move from empty tower B''),
      [''A'' \<mapsto> [3, 2], ''B'' \<mapsto> [], ''C'' \<mapsto> [1]])"
  by (simp add: move_disk_def)

text \<open>
  C4, as the claim states it, wants the recursive transfer itself to fail with an
  \<open>InvalidInput\<close> error for \<open>count < 1\<close>. \<open>hanoi_recursive\<close> has no such check: called with
  \<open>n = 0\<close> it raises no \<open>ValueError\<close>; the recursion goes on until the interpreter stops
  it with a \<open>RecursionError\<close>.
\<close>

theorem hanoi_recursive_zero_counterexample:
  "hanoi_recursive 0 ''A'' ''C'' ''B'' [''A'' \<mapsto> [1], ''B'' \<mapsto> [], ''C'' \<mapsto> []] True
     \<lparr>stdout = [], moves = []\<rparr> = None
   \<and> hanoi_recursive_limited 1000 0 ''A'' ''C'' ''B'' [''A'' \<mapsto> [1], ''B'' \<mapsto> [], ''C'' \<mapsto> []]
       True \<lparr>stdout = [], moves = []\<rparr>
     = (Raised RecursionError, [''A'' \<mapsto> [1], ''B'' \<mapsto> [], ''C'' \<mapsto> []],
        \<lparr>stdout = [], moves = []\<rparr>)"
  by (simp add: hanoi_recursive_diverges hanoi_recursive_limited_below_one del: fun_upd_apply)

text \<open>
  C4, amended. The check of \<open>n < 1\<close> is made by \<open>solve_hanoi\<close> (and by
  \<open>initialize_towers\<close>), not by the recursive transfer: for every \<open>n < 1\<close>, \<open>solve_hanoi n\<close>
  fails with a \<open>ValueError\<close> before any tower state exists, having printed nothing and
  moved no disk. \<open>hanoi_recursive\<close> called directly with \<open>n < 1\<close> raises no \<open>ValueError\<close>
  and does not return normally: whatever the recursion limit, the call ends in a
  \<open>RecursionError\<close> with all pegs exactly as they were, no disk moved and nothing
  printed, so no partial move sequence is applied.
\<close>

theorem count_below_one_rejected_by_solve_hanoi:
  "n < 1 \<Longrightarrow>
     solve_hanoi n show_steps =
       Some (Raised (ValueError ''Number of disks must be at least 1''),
             \<lparr>stdout = [], moves = []\<rparr>)
   \<and> initialize_towers n = Raised (ValueError ''Number of disks must be at least 1'')
   \<and> hanoi_recursive n source destination auxiliary towers show_steps w = None
   \<and> hanoi_recursive_limited limit n source destination auxiliary towers show_steps w
       = (Raised RecursionError, towers, w)"
  by (simp add: solve_hanoi_def initialize_towers_def hanoi_recursive_diverges
      hanoi_recursive_limited_below_one)

theorem count_below_one_rejected_by_solve_hanoi_witness:
  "(0::int) < 1
   \<and> solve_hanoi 0 True =
       Some (Raised (ValueError ''Number of disks must be at least 1''),
             \<lparr>stdout = [], moves = []\<rparr>)
   \<and> initialize_towers 0 = Raised (ValueError ''Number of disks must be at least 1'')
   \<and> hanoi_recursive 0 ''A'' ''C'' ''B'' [''A'' \<mapsto> [2, 1], ''B'' \<mapsto> [], ''C'' \<mapsto> []] True
        \<lparr>stdout = [], moves = []\<rparr> = None
   \<and> hanoi_recursive_limited 3 0 ''A'' ''C'' ''B'' [''A'' \<mapsto> [2, 1], ''B'' \<mapsto> [], ''C'' \<mapsto> []]
        True \<lparr>stdout = [], moves = []\<rparr>
       = (Raised RecursionError, [''A'' \<mapsto> [2, 1], ''B'' \<mapsto> [], ''C'' \<mapsto> []],
          \<lparr>stdout = [], moves = []\<rparr>)"
  using count_below_one_rejected_by_solve_hanoi[of 0 True "''A''" "''C''" "''B''"
      "[''A'' \<mapsto> [2, 1], ''B'' \<mapsto> [], ''C'' \<mapsto> []]" "\<lparr>stdout = [], moves = []\<rparr>" 3]
  by (simp del: fun_upd_apply)

text \<open>
  With \<open>n \<ge> 1\<close> and room for \<open>n\<close> nested calls the limit plays no part: the limited run of
  two disks is the run of \<open>hanoi_recursive\<close>.
\<close>

lemma hanoi_recursive_limited_2:
  "hanoi_recursive 2 ''A'' ''C'' ''B'' [''A'' \<mapsto> [2, 1], ''B'' \<mapsto> [], ''C'' \<mapsto> []] False
     \<lparr>stdout = [], moves = []\<rparr>
   = Some (hanoi_recursive_limited 2 2 ''A'' ''C'' ''B''
       [''A'' \<mapsto> [2, 1], ''B'' \<mapsto> [], ''C'' \<mapsto> []] False \<lparr>stdout = [], moves = []\<rparr>)"
  by (rule hanoi_recursive_limited_agrees) simp_all



section \<open>File copier: extensions\<close>

lemma lower_char_idem: "lower_char (lower_char c) = lower_char c"
  by (simp add: lower_char_def)

lemma lower_char_dot: "lower_char c = CHR ''.'' \<longleftrightarrow> c = CHR ''.''"
  by (simp add: lower_char_def)

lemma lower_char_slash: "lower_char c = CHR ''/'' \<longleftrightarrow> c = CHR ''/''"
  by (simp add: lower_char_def)

lemma rfind_cases:
  "rfind c s = - 1 \<and> c \<notin> set s
   \<or> 0 \<le> rfind c s \<and> nat (rfind c s) < length s \<and> s ! nat (rfind c s) = c
      \<and> c \<notin> set (drop (Suc (nat (rfind c s))) s)"
proof (induction s)
  case Nil
  show ?case by simp
next
  case (Cons x xs)
  then show ?case
    by (auto simp: Let_def nat_add_distrib)
qed

lemma suffix_shape:
  "suffix p = [] \<or> (\<exists>rest. suffix p = CHR ''.'' # rest \<and> rest \<noteq> [] \<and> CHR ''.'' \<notin> set rest
      \<and> set rest \<subseteq> set (name p))"
proof -
  let ?n = "name p"
  let ?i = "rfind CHR ''.'' ?n"
  show ?thesis
  proof (cases "0 < ?i \<and> ?i < int (length ?n) - 1")
    case False
    then show ?thesis by (auto simp: suffix_def Let_def)
  next
    case True
    with rfind_cases[of "CHR ''.''" ?n]
    have i: "nat ?i < length ?n" "?n ! nat ?i = CHR ''.''"
        "CHR ''.'' \<notin> set (drop (Suc (nat ?i)) ?n)"
      by auto
    have "Suc (nat ?i) < length ?n" using True by linarith
    then have ne: "drop (Suc (nat ?i)) ?n \<noteq> []" by simp
    have "suffix p = drop (nat ?i) ?n" using True by (simp add: suffix_def Let_def)
    also have "\<dots> = CHR ''.'' # drop (Suc (nat ?i)) ?n"
      using i(1,2) by (simp add: Cons_nth_drop_Suc[symmetric])
    finally show ?thesis using i(3) ne by (auto dest: in_set_dropD)
  qed
qed

lemma get_file_extension_cases:
  "suffix p = [] \<and> get_file_extension p = ''no_extension''
   \<or> (\<exists>rest. suffix p = CHR ''.'' # rest \<and> rest \<noteq> [] \<and> CHR ''.'' \<notin> set rest
        \<and> set rest \<subseteq> set (name p) \<and> get_file_extension p = lower rest)"
proof -
  from suffix_shape[of p] show ?thesis
  proof
    assume "suffix p = []"
    then show ?thesis by (simp add: get_file_extension_def lstrip_def)
  next
    assume "\<exists>rest. suffix p = CHR ''.'' # rest \<and> rest \<noteq> [] \<and> CHR ''.'' \<notin> set rest
      \<and> set rest \<subseteq> set (name p)"
    then obtain rest where r: "suffix p = CHR ''.'' # rest" "rest \<noteq> []" "CHR ''.'' \<notin> set rest"
        "set rest \<subseteq> set (name p)"
      by blast
    then have "lstrip CHR ''.'' (suffix p) = rest"
      by (cases rest) (auto simp: lstrip_def)
    with r show ?thesis by (simp add: get_file_extension_def)
  qed
qed

lemma suffix_trailing_dot:
  "name p \<noteq> [] \<Longrightarrow> last (name p) = CHR ''.'' \<Longrightarrow> suffix p = []"
proof -
  assume ne: "name p \<noteq> []" and l: "last (name p) = CHR ''.''"
  let ?n = "name p"
  let ?i = "rfind CHR ''.'' ?n"
  have "CHR ''.'' \<in> set ?n" using ne l last_in_set by metis
  with rfind_cases[of "CHR ''.''" ?n]
  have i: "0 \<le> ?i" "nat ?i < length ?n" "CHR ''.'' \<notin> set (drop (Suc (nat ?i)) ?n)"
    by auto
  have "\<not> Suc (nat ?i) < length ?n"
  proof
    assume "Suc (nat ?i) < length ?n"
    then have "last (drop (Suc (nat ?i)) ?n) = last ?n" "drop (Suc (nat ?i)) ?n \<noteq> []"
      by simp_all
    then have "last ?n \<in> set (drop (Suc (nat ?i)) ?n)" using last_in_set by metis
    with l i(3) show False by simp
  qed
  then have "\<not> ?i < int (length ?n) - 1" using i(1) by linarith
  then show ?thesis by (simp add: suffix_def Let_def)
qed

text \<open>
  C9. \<open>get_file_extension\<close> yields \<open>gz\<close> for \<open>archive.tar.gz\<close> (only the last dot-separated
  component counts) and the sentinel \<open>no_extension\<close> for \<open>.gitignore\<close>.
\<close>

theorem get_file_extension_examples:
  "get_file_extension [''archive.tar.gz''] = ''gz''
   \<and> get_file_extension [''.gitignore''] = ''no_extension''"
  by (simp add: get_file_extension_def suffix_def name_def lstrip_def lower_def lower_char_def)

text \<open>
  C10. For every path, \<open>get_file_extension\<close> returns a non-empty string without a dot
  that is its own lowercase form; it is the sentinel \<open>no_extension\<close> whenever the path has
  no suffix, which includes every name that ends in a dot. The result has no \<open>/\<close> either
  when the name has none, so it is a single path component.
\<close>

theorem get_file_extension_well_formed:
  "get_file_extension p \<noteq> []
   \<and> CHR ''.'' \<notin> set (get_file_extension p)
   \<and> lower (get_file_extension p) = get_file_extension p
   \<and> (suffix p = [] \<longrightarrow> get_file_extension p = ''no_extension'')
   \<and> (name p \<noteq> [] \<and> last (name p) = CHR ''.'' \<longrightarrow> get_file_extension p = ''no_extension'')
   \<and> (CHR ''/'' \<notin> set (name p) \<longrightarrow> CHR ''/'' \<notin> set (get_file_extension p))"
proof -
  have sentinel: "lower ''no_extension'' = ''no_extension''"
    by (simp add: lower_def lower_char_def)
  have trailing: "name p \<noteq> [] \<and> last (name p) = CHR ''.'' \<longrightarrow> suffix p = []"
    using suffix_trailing_dot by blast
  from get_file_extension_cases[of p] show ?thesis
  proof
    assume "suffix p = [] \<and> get_file_extension p = ''no_extension''"
    then show ?thesis using sentinel by simp
  next
    assume "\<exists>rest. suffix p = CHR ''.'' # rest \<and> rest \<noteq> [] \<and> CHR ''.'' \<notin> set rest
        \<and> set rest \<subseteq> set (name p) \<and> get_file_extension p = lower rest"
    then obtain rest where r: "suffix p = CHR ''.'' # rest" "rest \<noteq> []" "CHR ''.'' \<notin> set rest"
        "set rest \<subseteq> set (name p)" "get_file_extension p = lower rest"
      by blast
    have "lower (lower rest) = lower rest"
      by (simp add: lower_def lower_char_idem)
    moreover have "CHR ''.'' \<notin> set (lower rest)"
    proof
      assume "CHR ''.'' \<in> set (lower rest)"
      then obtain x where x: "x \<in> set rest" "lower_char x = CHR ''.''"
        unfolding lower_def by (metis (no_types) imageE list.set_map)
      from x(2) have "x = CHR ''.''" by (simp only: lower_char_dot)
      with x(1) r(3) show False by simp
    qed
    moreover have "CHR ''/'' \<notin> set (name p) \<longrightarrow> CHR ''/'' \<notin> set (lower rest)"
    proof (intro impI notI)
      assume no: "CHR ''/'' \<notin> set (name p)" and "CHR ''/'' \<in> set (lower rest)"
      then obtain x where x: "x \<in> set rest" "lower_char x = CHR ''/''"
        unfolding lower_def by (metis (no_types) imageE list.set_map)
      from x(2) have "x = CHR ''/''" by (simp only: lower_char_slash)
      with x(1) r(4) no show False by auto
    qed
    moreover have "lower rest \<noteq> []" using r(2) by (simp add: lower_def)
    ultimately show ?thesis using r(1,5) trailing by auto
  qed
qed

theorem get_file_extension_well_formed_witness:
  "get_file_extension [''src'', ''b.TXT''] = ''txt''
   \<and> lower ''txt'' = ''txt''
   \<and> suffix [''src'', ''notes.''] = []
   \<and> get_file_extension [''src'', ''notes.''] = ''no_extension''"
  using get_file_extension_well_formed[of "[''src'', ''notes.'']"]
    get_file_extension_well_formed[of "[''src'', ''b.TXT'']"]
  by (simp add: get_file_extension_def suffix_def name_def lstrip_def lower_def lower_char_def)

section \<open>File copier: the concrete case\<close>

lemmas copier_eval =
  iterdir_def is_file_def is_dir_def exists_def copy_file_to_destination_def copy2_def
  get_file_extension_def suffix_def stem_def name_def lstrip_def lower_def lower_char_def
  free_name.simps Let_def

lemma three_orders:
  assumes "set es = {a, b, c}" "length es = 3" "a \<noteq> b" "a \<noteq> c" "b \<noteq> c"
  shows "es = [a, b, c] \<or> es = [a, c, b] \<or> es = [b, a, c] \<or> es = [b, c, a]
       \<or> es = [c, a, b] \<or> es = [c, b, a]"
proof -
  from assms(2) obtain x y z where es: "es = [x, y, z]"
    by (auto simp: length_Suc_conv numeral_3_eq_3)
  have "card (set es) = length es" using assms by simp
  then have "distinct es" by (rule card_distinct)
  then have d: "x \<noteq> y" "x \<noteq> z" "y \<noteq> z" using es by auto
  have "x \<in> {a, b, c}" "y \<in> {a, b, c}" "z \<in> {a, b, c}"
    using assms(1) es by auto
  with d show ?thesis unfolding es by auto
qed

lemma copier_any_order:
  assumes "es = [(''a.txt'', File ca ma), (''b.TXT'', File cb mb), (''README'', File cr mr)]
         \<or> es = [(''a.txt'', File ca ma), (''README'', File cr mr), (''b.TXT'', File cb mb)]
         \<or> es = [(''b.TXT'', File cb mb), (''a.txt'', File ca ma), (''README'', File cr mr)]
         \<or> es = [(''b.TXT'', File cb mb), (''README'', File cr mr), (''a.txt'', File ca ma)]
         \<or> es = [(''README'', File cr mr), (''a.txt'', File ca ma), (''b.TXT'', File cb mb)]
         \<or> es = [(''README'', File cr mr), (''b.TXT'', File cb mb), (''a.txt'', File ca ma)]"
  shows "\<exists>w d. process_directory_recursive (Suc depth) [''src''] [''dest'']
            \<lparr>files = Dir [(''src'', Dir es), (''dest'', Dir [])], printed = []\<rparr>
          = Some (Returned (), w)
      \<and> lookup (files w) [''src''] = Some (Dir es)
      \<and> lookup (files w) [''dest''] = Some d
      \<and> set (files_under d) =
          {[''txt'', ''a.txt''], [''txt'', ''b.TXT''], [''no_extension'', ''README'']}
      \<and> length (files_under d) = 3
      \<and> lookup (files w) [''dest'', ''txt'', ''a.txt''] = Some (File ca ma)
      \<and> lookup (files w) [''dest'', ''txt'', ''b.TXT''] = Some (File cb mb)
      \<and> lookup (files w) [''dest'', ''no_extension'', ''README''] = Some (File cr mr)"
  using assms by (elim disjE) (auto simp: copier_eval)

text \<open>
  C8, as the claim states it, expects \<open>b.TXT\<close> to arrive as \<open>dest/txt/b.txt\<close>. The copier
  lowercases only the name of the bucket directory; the file keeps its own name
  (\<open>extension_dir / file_path.name\<close>), so the copy is \<open>dest/txt/b.TXT\<close> and there is no
  \<open>dest/txt/b.txt\<close>.
\<close>

theorem copier_keeps_file_name_counterexample:
  "process_directory_recursive 1 [''src''] [''dest'']
     \<lparr>files = Dir [(''src'', Dir [(''a.txt'', File ''x'' 1), (''b.TXT'', File ''y'' 2),
                                  (''README'', File ''z'' 3)]),
                    (''dest'', Dir [])],
      printed = []\<rparr>
   = Some (Returned (),
       \<lparr>files = Dir [(''src'', Dir [(''a.txt'', File ''x'' 1), (''b.TXT'', File ''y'' 2),
                                  (''README'', File ''z'' 3)]),
                    (''dest'', Dir [(''txt'', Dir [(''a.txt'', File ''x'' 1),
                                                   (''b.TXT'', File ''y'' 2)]),
                                    (''no_extension'', Dir [(''README'', File ''z'' 3)])])],
        printed = [Copied [''src'', ''a.txt''] [''dest'', ''txt'', ''a.txt''],
                   Copied [''src'', ''b.TXT''] [''dest'', ''txt'', ''b.TXT''],
                   Copied [''src'', ''README''] [''dest'', ''no_extension'', ''README'']]\<rparr>)
   \<and> files_under (Dir [(''txt'', Dir [(''a.txt'', File ''x'' 1), (''b.TXT'', File ''y'' 2)]),
                      (''no_extension'', Dir [(''README'', File ''z'' 3)])])
       = [[''txt'', ''a.txt''], [''txt'', ''b.TXT''], [''no_extension'', ''README'']]
   \<and> [''txt'', ''b.TXT''] \<noteq> [''txt'', ''b.txt'']"
  by (simp add: copier_eval)

text \<open>
  C8, amended. Copying a source directory that holds exactly the files \<open>a.txt\<close>, \<open>b.TXT\<close>
  and \<open>README\<close>, listed in any order, into an empty destination directory \<open>dest\<close> succeeds
  and produces exactly the files \<open>dest/txt/a.txt\<close>, \<open>dest/txt/b.TXT\<close> and
  \<open>dest/no_extension/README\<close>, each with the content and modification time of its
  source; the source directory is unchanged.
\<close>

theorem copier_concrete_case:
  assumes "set es = {(''a.txt'', File ca ma), (''b.TXT'', File cb mb), (''README'', File cr mr)}"
    and "length es = 3"
  shows "\<exists>w d. process_directory_recursive (Suc depth) [''src''] [''dest'']
            \<lparr>files = Dir [(''src'', Dir es), (''dest'', Dir [])], printed = []\<rparr>
          = Some (Returned (), w)
      \<and> lookup (files w) [''src''] = Some (Dir es)
      \<and> lookup (files w) [''dest''] = Some d
      \<and> set (files_under d) =
          {[''txt'', ''a.txt''], [''txt'', ''b.TXT''], [''no_extension'', ''README'']}
      \<and> length (files_under d) = 3
      \<and> lookup (files w) [''dest'', ''txt'', ''a.txt''] = Some (File ca ma)
      \<and> lookup (files w) [''dest'', ''txt'', ''b.TXT''] = Some (File cb mb)
      \<and> lookup (files w) [''dest'', ''no_extension'', ''README''] = Some (File cr mr)"
  by (rule copier_any_order, rule three_orders[OF assms]) simp_all

theorem copier_concrete_case_witness:
  "set [(''README'', File ''z'' 3), (''b.TXT'', File ''y'' 2), (''a.txt'', File ''x'' 1)]
     = {(''a.txt'', File ''x'' 1), (''b.TXT'', File ''y'' 2), (''README'', File ''z'' 3)}
   \<and> length [(''README'', File ''z'' 3), (''b.TXT'', File ''y'' 2), (''a.txt'', File ''x'' 1)] = 3
   \<and> (\<exists>w d. process_directory_recursive 1 [''src''] [''dest'']
            \<lparr>files = Dir [(''src'', Dir [(''README'', File ''z'' 3), (''b.TXT'', File ''y'' 2),
                                         (''a.txt'', File ''x'' 1)]),
                           (''dest'', Dir [])], printed = []\<rparr>
          = Some (Returned (), w)
      \<and> lookup (files w) [''dest''] = Some d
      \<and> set (files_under d) =
          {[''txt'', ''a.txt''], [''txt'', ''b.TXT''], [''no_extension'', ''README'']}
      \<and> length (files_under d) = 3)"
proof -
  have s: "set [(''README'', File ''z'' 3), (''b.TXT'', File ''y'' 2), (''a.txt'', File ''x'' 1)]
     = {(''a.txt'', File ''x'' 1), (''b.TXT'', File ''y'' 2), (''README'', File ''z'' 3)}"
    by auto
  have l: "length [(''README'', File ''z'' 3), (''b.TXT'', File ''y'' 2), (''a.txt'', File ''x'' 1)] = 3"
    by simp
  from copier_concrete_case[OF s l, of 0] s l show ?thesis
    unfolding One_nat_def by blast
qed

section \<open>Koch snowflake: the rounding\<close>

text \<open>
  \<open>floor_log2\<close> is the binary exponent of a positive rational, and \<open>round64\<close> moves a
  number by at most half a unit of the last place.
\<close>

lemma pow2_powi: "pow2 k = 2 powi k"
  by (simp add: pow2_def power_int_def power_inverse inverse_eq_divide power_one_over)

lemma bitlen_rat_bounds:
  assumes "0 < (p::int)"
  shows "(2::rat) powi (bitlen p - 1) \<le> of_int p" and "of_int p < (2::rat) powi bitlen p"
proof -
  from assms have b: "1 \<le> bitlen p" by (auto simp: bitlen_alt_def)
  from bitlen_bounds[OF assms] have "2 ^ nat (bitlen p - 1) \<le> p" "p < 2 ^ nat (bitlen p)"
    by auto
  then have "(of_int (2 ^ nat (bitlen p - 1)) :: rat) \<le> of_int p"
      "(of_int p :: rat) < of_int (2 ^ nat (bitlen p))"
    by (simp_all only: of_int_le_iff of_int_less_iff)
  then show "(2::rat) powi (bitlen p - 1) \<le> of_int p" "of_int p < (2::rat) powi bitlen p"
    using b by (simp_all add: power_int_def)
qed

lemma floor_log2_bounds:
  assumes "0 < x"
  shows "pow2 (floor_log2 x) \<le> x \<and> x < pow2 (floor_log2 x + 1)"
proof -
  obtain p q where pq: "quotient_of x = (p, q)" by (cases "quotient_of x")
  then have q: "0 < q" and x: "x = of_int p / of_int q"
    using quotient_of_denom_pos quotient_of_div by auto
  have p: "0 < p" using assms x q by (simp add: zero_less_divide_iff)
  let ?d = "bitlen p - bitlen q"
  note P = bitlen_rat_bounds[OF p] and Q = bitlen_rat_bounds[OF q]
  have qpos: "(0::rat) < of_int q" using q by simp
  have lo: "(2::rat) powi (?d - 1) \<le> x"
  proof -
    have "?d - 1 = (bitlen p - 1) - bitlen q" by simp
    then have "(2::rat) powi (?d - 1) = 2 powi ((bitlen p - 1) - bitlen q)"
      by (simp only:)
    also have "\<dots> = 2 powi (bitlen p - 1) / 2 powi bitlen q"
      by (rule power_int_diff) simp
    also have "\<dots> \<le> of_int p / 2 powi bitlen q"
      using P(1) by (simp add: divide_right_mono)
    also have "\<dots> \<le> of_int p / of_int q"
      using Q(2) qpos p by (intro divide_left_mono) (simp_all add: less_imp_le)
    finally show ?thesis by (simp add: x)
  qed
  have hi: "x < (2::rat) powi (?d + 1)"
  proof -
    have pos: "(0::rat) < 2 powi (bitlen q - 1)" by simp
    have "x = of_int p / of_int q" by (rule x)
    also have "\<dots> \<le> of_int p / 2 powi (bitlen q - 1)"
      using Q(1) p pos qpos by (intro divide_left_mono) (simp_all add: less_imp_le)
    also have "\<dots> < 2 powi bitlen p / 2 powi (bitlen q - 1)"
      using P(2) pos by (simp add: divide_strict_right_mono)
    also have "\<dots> = (2::rat) powi (bitlen p - (bitlen q - 1))"
      by (rule power_int_diff[symmetric]) simp
    also have "bitlen p - (bitlen q - 1) = ?d + 1" by simp
    finally show ?thesis .
  qed
  show ?thesis
  proof (cases "pow2 ?d \<le> x")
    case True
    then have "floor_log2 x = ?d" by (simp add: floor_log2_def pq)
    with True hi show ?thesis by (simp add: pow2_powi)
  next
    case False
    then have "floor_log2 x = ?d - 1" by (simp add: floor_log2_def pq)
    with False lo show ?thesis by (simp add: pow2_powi)
  qed
qed


lemma pow2_pos: "0 < pow2 k"
  by (simp add: pow2_def)

lemma round_half_even_nearest: "\<bar>of_int (round_half_even x) - x\<bar> \<le> 1 / 2"
proof -
  define f where "f = \<lfloor>x\<rfloor>"
  have b: "of_int f \<le> x" "x < of_int f + 1" unfolding f_def by linarith+
  consider "x - of_int f < 1 / 2" | "1 / 2 < x - of_int f" | "x - of_int f = 1 / 2"
    by linarith
  then show ?thesis
  proof cases
    case 1
    then have "round_half_even x = f" by (simp add: round_half_even_def f_def Let_def)
    with 1 b show ?thesis by simp
  next
    case 2
    then have "round_half_even x = f + 1" by (simp add: round_half_even_def f_def Let_def)
    with 2 b show ?thesis by simp
  next
    case 3
    then have "round_half_even x = f \<or> round_half_even x = f + 1"
      by (simp add: round_half_even_def f_def Let_def)
    with 3 b show ?thesis by auto
  qed
qed

lemma round64_nearest:
  "\<bar>round64 x - x\<bar> \<le> pow2 (max (floor_log2 \<bar>x\<bar> - 52) (- 1074)) / 2"
proof (cases "x = 0")
  case True
  then show ?thesis using pow2_pos[of "max (floor_log2 \<bar>x\<bar> - 52) (- 1074)"]
    by (simp add: round64_def)
next
  case False
  let ?q = "max (floor_log2 \<bar>x\<bar> - 52) (- 1074)"
  let ?m = "round_half_even (\<bar>x\<bar> / pow2 ?q)"
  have q: "0 < pow2 ?q" by (rule pow2_pos)
  have "round64 x - x = sgn x * (of_int ?m - \<bar>x\<bar> / pow2 ?q) * pow2 ?q"
    using False q by (simp add: round64_def Let_def algebra_simps sgn_if abs_if)
  then have "\<bar>round64 x - x\<bar> = \<bar>of_int ?m - \<bar>x\<bar> / pow2 ?q\<bar> * pow2 ?q"
    using False q by (simp add: abs_mult abs_sgn_eq)
  also have "\<dots> \<le> (1 / 2) * pow2 ?q"
    using round_half_even_nearest[of "\<bar>x\<bar> / pow2 ?q"] q
    by (intro mult_right_mono) simp_all
  finally show ?thesis by simp
qed

lemma pow2_mono: "a \<le> b \<Longrightarrow> pow2 a \<le> pow2 b"
  unfolding pow2_powi by (rule power_int_increasing) simp_all

lemma pow2_less_imp: "pow2 a < pow2 b \<Longrightarrow> a < b"
  using pow2_mono[of b a] by (cases "a < b") simp_all

lemma pow2_diff: "pow2 (a - b) = pow2 a / pow2 b"
  unfolding pow2_powi by (rule power_int_diff) simp

lemma round64_error: "\<bar>round64 x - x\<bar> \<le> rounding_unit * \<bar>x\<bar> + least_half"
proof (cases "x = 0")
  case True
  then show ?thesis using pow2_pos[of "- 1075"] by (simp add: round64_def least_half_def)
next
  case False
  let ?fl = "floor_log2 \<bar>x\<bar>"
  from False have "0 < \<bar>x\<bar>" by simp
  from floor_log2_bounds[OF this] have lo: "pow2 ?fl \<le> \<bar>x\<bar>" by simp
  have u: "rounding_unit * pow2 ?fl = pow2 (?fl - 52) / 2"
  proof -
    have "pow2 (?fl - 52) = pow2 ?fl / pow2 52" by (rule pow2_diff)
    then show ?thesis by (simp add: rounding_unit_def pow2_def)
  qed
  have h: "least_half = pow2 (- 1074) / 2"
  proof -
    have "pow2 (- 1074 - 1) = pow2 (- 1074) / pow2 1" by (rule pow2_diff)
    then show ?thesis by (simp add: least_half_def pow2_def[of 1])
  qed
  have "pow2 (max (?fl - 52) (- 1074)) / 2 \<le> rounding_unit * \<bar>x\<bar> + least_half"
  proof (cases "- 1074 \<le> ?fl - 52")
    case True
    then have "max (?fl - 52) (- 1074) = ?fl - 52" by (rule max_absorb1)
    then have "pow2 (max (?fl - 52) (- 1074)) / 2 = rounding_unit * pow2 ?fl"
      by (simp only: u)
    also have "\<dots> \<le> rounding_unit * \<bar>x\<bar>"
      using lo by (intro mult_left_mono) (simp_all add: rounding_unit_def)
    finally show ?thesis using pow2_pos[of "- 1075"] by (simp add: least_half_def)
  next
    case False
    then have "max (?fl - 52) (- 1074) = - 1074" by (intro max_absorb2) simp
    then have "pow2 (max (?fl - 52) (- 1074)) / 2 = least_half"
      by (simp only: h)
    moreover have "0 \<le> rounding_unit * \<bar>x\<bar>" by (simp add: rounding_unit_def)
    ultimately show ?thesis by simp
  qed
  with round64_nearest[of x] show ?thesis by linarith
qed

lemma round_half_even_ge_floor: "\<lfloor>x\<rfloor> \<le> round_half_even x"
  by (simp add: round_half_even_def Let_def)

lemma round64_overflow:
  assumes "pow2 1024 \<le> x"
  shows "pow2 1024 \<le> round64 x"
proof -
  have pos: "0 < x" using assms pow2_pos[of 1024] by linarith
  let ?fl = "floor_log2 \<bar>x\<bar>"
  from pos have ax: "\<bar>x\<bar> = x" by simp
  from floor_log2_bounds[of "\<bar>x\<bar>"] pos
  have lo: "pow2 ?fl \<le> x" and hi: "x < pow2 (?fl + 1)" by (simp_all add: ax)
  from assms hi have "pow2 1024 < pow2 (?fl + 1)" by linarith
  then have fl: "1024 \<le> ?fl" using pow2_less_imp by fastforce
  then have q: "max (?fl - 52) (- 1074) = ?fl - 52" by simp
  let ?y = "x / pow2 (?fl - 52)"
  have "pow2 ?fl / pow2 (?fl - 52) \<le> ?y"
    using lo pow2_pos[of "?fl - 52"] by (simp add: divide_right_mono)
  moreover have "pow2 ?fl / pow2 (?fl - 52) = 2 ^ 52"
  proof -
    have "pow2 (?fl - 52) = pow2 ?fl / pow2 52" by (rule pow2_diff)
    then have "pow2 ?fl = 2 ^ 52 * pow2 (?fl - 52)" by (simp add: pow2_def[of 52])
    then have "pow2 ?fl / pow2 (?fl - 52) = 2 ^ 52 * pow2 (?fl - 52) / pow2 (?fl - 52)"
      by (simp only:)
    then show ?thesis using pow2_pos[of "?fl - 52"] by simp
  qed
  ultimately have "of_int (2 ^ 52) \<le> ?y" by simp
  then have "2 ^ 52 \<le> \<lfloor>?y\<rfloor>" by (simp only: le_floor_iff)
  then have m: "2 ^ 52 \<le> round_half_even ?y"
    using round_half_even_ge_floor[of ?y] by linarith
  have "round64 x = of_int (round_half_even ?y) * pow2 (?fl - 52)"
    using pos q by (simp add: round64_def Let_def ax)
  moreover have "(2 ^ 52 :: rat) * pow2 (?fl - 52) \<le> of_int (round_half_even ?y) * pow2 (?fl - 52)"
  proof (rule mult_right_mono)
    from m have "(of_int (2 ^ 52) :: rat) \<le> of_int (round_half_even ?y)"
      by (simp only: of_int_le_iff)
    then show "(2 ^ 52 :: rat) \<le> of_int (round_half_even ?y)" by simp
    show "0 \<le> pow2 (?fl - 52)" using pow2_pos[of "?fl - 52"] by simp
  qed
  moreover have "(2 ^ 52 :: rat) * pow2 (?fl - 52) = pow2 ?fl"
  proof -
    have "pow2 (?fl - 52) = pow2 ?fl / pow2 52" by (rule pow2_diff)
    then show ?thesis by (simp add: pow2_def[of 52])
  qed
  ultimately have "pow2 ?fl \<le> round64 x" by simp
  moreover have "pow2 1024 \<le> pow2 ?fl" using fl by (rule pow2_mono)
  ultimately show ?thesis by linarith
qed

lemma rounding_unit_bounds: "0 \<le> rounding_unit" "rounding_unit \<le> 1 / 2"
  by (simp_all add: rounding_unit_def)

lemma least_half_pos: "0 \<le> least_half"
  using pow2_pos[of "- 1075"] by (simp add: least_half_def)

lemma segment_Suc: "segment (Suc k) f = round64 (segment k f / 3)"
  by (simp add: segment_def)

lemma segment_error:
  "\<bar>segment k f - f / 3 ^ k\<bar>
     \<le> ((1 + rounding_unit) ^ k - 1) * (\<bar>f\<bar> / 3 ^ k) + 2 * least_half"
proof (induction k)
  case 0
  show ?case using least_half_pos by (simp add: segment_def)
next
  case (Suc k)
  define u where "u = rounding_unit"
  define h where "h = least_half"
  define s where "s = segment k f"
  define a where "a = \<bar>f\<bar> / 3 ^ k"
  define A where "A = (1 + u) ^ k - 1"
  have u: "0 \<le> u" "u \<le> 1 / 2" and h: "0 \<le> h"
    unfolding u_def h_def by (rule rounding_unit_bounds least_half_pos)+
  have a: "0 \<le> a" unfolding a_def by simp
  have A: "0 \<le> A" unfolding A_def using u(1) by (simp add: one_le_power)
  have IH: "\<bar>s - f / 3 ^ k\<bar> \<le> A * a + 2 * h"
    using Suc.IH unfolding s_def a_def A_def u_def h_def .
  have fa: "\<bar>f / 3 ^ k\<bar> = a" unfolding a_def by (simp add: abs_divide)
  have sabs: "\<bar>s\<bar> \<le> a + (A * a + 2 * h)"
    using IH fa by linarith
  have r: "\<bar>round64 (s / 3) - s / 3\<bar> \<le> u * \<bar>s / 3\<bar> + h"
    unfolding u_def h_def by (rule round64_error)
  have "u * \<bar>s / 3\<bar> = u * \<bar>s\<bar> / 3" by (simp add: abs_divide)
  also have "\<dots> \<le> u * (a + (A * a + 2 * h)) / 3"
    using sabs u(1) by (simp add: mult_left_mono divide_right_mono)
  finally have r1: "\<bar>round64 (s / 3) - s / 3\<bar> \<le> u * (a + (A * a + 2 * h)) / 3 + h"
    using r by linarith
  have split: "round64 (s / 3) - f / 3 ^ Suc k
      = (round64 (s / 3) - s / 3) + (s - f / 3 ^ k) / 3"
    by (simp add: field_simps)
  have "\<bar>round64 (s / 3) - f / 3 ^ Suc k\<bar>
      \<le> \<bar>round64 (s / 3) - s / 3\<bar> + \<bar>(s - f / 3 ^ k) / 3\<bar>"
    unfolding split by (rule abs_triangle_ineq)
  also have "\<bar>(s - f / 3 ^ k) / 3\<bar> = \<bar>s - f / 3 ^ k\<bar> / 3" by (simp add: abs_divide)
  finally have tri: "\<bar>round64 (s / 3) - f / 3 ^ Suc k\<bar>
      \<le> \<bar>round64 (s / 3) - s / 3\<bar> + \<bar>s - f / 3 ^ k\<bar> / 3" .
  have t2: "\<bar>s - f / 3 ^ k\<bar> / 3 \<le> (A * a + 2 * h) / 3"
    using IH by (rule divide_right_mono) simp
  have bound: "\<bar>round64 (s / 3) - f / 3 ^ Suc k\<bar>
      \<le> u * (a + (A * a + 2 * h)) / 3 + h + (A * a + 2 * h) / 3"
    by (rule order_trans[OF tri add_mono[OF r1 t2]])
  have "u * h \<le> (1 / 2) * h" using u(2) h by (rule mult_right_mono)
  then have uh: "u * h \<le> h / 2" by simp
  have "u * (a + (A * a + 2 * h)) / 3 + h + (A * a + 2 * h) / 3
      = (A + u * A + u) * (a / 3) + (h + 2 * h / 3 + 2 * (u * h) / 3)"
    by (simp add: field_simps)
  also have "\<dots> \<le> (A + u * A + u) * (a / 3) + 2 * h"
    using uh by linarith
  also have "(A + u * A + u) = (1 + u) ^ Suc k - 1"
    unfolding A_def by (simp add: algebra_simps)
  also have "a / 3 = \<bar>f\<bar> / 3 ^ Suc k" unfolding a_def by simp
  finally have "u * (a + (A * a + 2 * h)) / 3 + h + (A * a + 2 * h) / 3
      \<le> ((1 + u) ^ Suc k - 1) * (\<bar>f\<bar> / 3 ^ Suc k) + 2 * h" .
  with bound show ?case
    unfolding segment_Suc s_def[symmetric] u_def h_def by linarith
qed

lemma segment_error_from:
  assumes "\<bar>f - x\<bar> \<le> rounding_unit * \<bar>x\<bar> + least_half"
  shows "\<bar>segment k f - x / 3 ^ k\<bar>
     \<le> ((1 + rounding_unit) ^ Suc k - 1) * (\<bar>x\<bar> / 3 ^ k) + 3 * least_half"
proof -
  define u where "u = rounding_unit"
  define h where "h = least_half"
  define c :: rat where "c = 1 / 3 ^ k"
  define A where "A = (1 + u) ^ k - 1"
  define X where "X = \<bar>x\<bar>"
  have u: "0 \<le> u" "u \<le> 1 / 2" and h: "0 \<le> h"
    unfolding u_def h_def by (rule rounding_unit_bounds least_half_pos)+
  have c: "0 \<le> c" unfolding c_def by simp
  have A: "0 \<le> A" unfolding A_def using u(1) by (simp add: one_le_power)
  have X: "0 \<le> X" unfolding X_def by simp
  have Ac: "(A + 1) * c \<le> 1"
  proof -
    have "(A + 1) * c = ((1 + u) / 3) ^ k"
      unfolding A_def c_def by (simp add: power_divide)
    also have "\<dots> \<le> 1" using u by (intro power_le_one) simp_all
    finally show ?thesis .
  qed
  have fx: "\<bar>f - x\<bar> \<le> u * X + h" using assms unfolding u_def h_def X_def .
  then have fabs: "\<bar>f\<bar> \<le> X + (u * X + h)" unfolding X_def by linarith
  have e1: "\<bar>segment k f - f / 3 ^ k\<bar> \<le> A * (\<bar>f\<bar> * c) + 2 * h"
    using segment_error[of k f] unfolding A_def c_def u_def h_def by simp
  have "A * (\<bar>f\<bar> * c) \<le> A * ((X + (u * X + h)) * c)"
    using fabs A c by (intro mult_left_mono mult_right_mono)
  with e1 have e1': "\<bar>segment k f - f / 3 ^ k\<bar> \<le> A * ((X + (u * X + h)) * c) + 2 * h"
    by linarith
  have "f / 3 ^ k - x / 3 ^ k = (f - x) * c" unfolding c_def by (simp add: field_simps)
  then have "\<bar>f / 3 ^ k - x / 3 ^ k\<bar> = \<bar>f - x\<bar> * c"
    using c by (simp add: abs_mult)
  also have "\<dots> \<le> (u * X + h) * c" using fx c by (rule mult_right_mono)
  finally have e2: "\<bar>f / 3 ^ k - x / 3 ^ k\<bar> \<le> (u * X + h) * c" .
  have "\<bar>segment k f - x / 3 ^ k\<bar>
      \<le> \<bar>segment k f - f / 3 ^ k\<bar> + \<bar>f / 3 ^ k - x / 3 ^ k\<bar>"
    by linarith
  with e1' e2 have tot: "\<bar>segment k f - x / 3 ^ k\<bar>
      \<le> A * ((X + (u * X + h)) * c) + 2 * h + (u * X + h) * c"
    by linarith
  have "((A + 1) * c) * h \<le> 1 * h" using Ac h by (rule mult_right_mono)
  then have Ach: "(A + 1) * c * h \<le> h" by simp
  have "A * ((X + (u * X + h)) * c) + 2 * h + (u * X + h) * c
      = (A + u * A + u) * (X * c) + ((A + 1) * c * h + 2 * h)"
    by (simp add: algebra_simps)
  also have "\<dots> \<le> (A + u * A + u) * (X * c) + 3 * h"
    using Ach by linarith
  also have "A + u * A + u = (1 + u) ^ Suc k - 1"
    unfolding A_def by (simp add: algebra_simps)
  also have "X * c = \<bar>x\<bar> / 3 ^ k" unfolding X_def c_def by simp
  finally have "A * ((X + (u * X + h)) * c) + 2 * h + (u * X + h) * c
      \<le> ((1 + u) ^ Suc k - 1) * (\<bar>x\<bar> / 3 ^ k) + 3 * h" .
  with tot show ?thesis unfolding u_def h_def by linarith
qed

section \<open>Koch snowflake: the claims\<close>

lemma forwards_append: "forwards (xs @ ys) = forwards xs @ forwards ys"
  by (induction xs rule: forwards.induct) simp_all

lemma net_turn_append: "net_turn (xs @ ys) = net_turn xs + net_turn ys"
  by (induction xs rule: net_turn.induct) simp_all

lemma koch_curve_step:
  "level \<noteq> 0 \<Longrightarrow> truediv_3_0 len = Returned len1 \<Longrightarrow>
   koch_curve t len1 (level - 1) = Some (Returned (), ta) \<Longrightarrow>
   koch_curve (ta @ [Left 60]) len1 (level - 1) = Some (Returned (), tb) \<Longrightarrow>
   koch_curve (tb @ [Right 120]) len1 (level - 1) = Some (Returned (), tc) \<Longrightarrow>
   koch_curve t len level = koch_curve (tc @ [Left 60]) len1 (level - 1)"
  by (subst koch_curve.simps) simp

lemma koch_curve_float:
  assumes "0 \<le> level"
  shows "\<exists>cs. koch_curve t (PyFloat f) level = Some (Returned (), t @ cs)
      \<and> forwards cs = replicate (4 ^ nat level) (PyFloat (segment (nat level) f))
      \<and> net_turn cs = 0"
  using assms
proof (induction level arbitrary: t f rule: int_ge_induct)
  case base
  have "koch_curve t (PyFloat f) 0 = Some (Returned (), t @ [Forward (PyFloat f)])"
    by (subst koch_curve.simps) simp
  then show ?case by (simp add: segment_def)
next
  case (step n)
  let ?g = "round64 (f / 3)"
  let ?l = "PyFloat ?g"
  let ?fs = "replicate (4 ^ nat n) (PyFloat (segment (nat n) ?g))"
  have dv: "truediv_3_0 (PyFloat f) = Returned ?l"
    by (simp add: truediv_3_0_def to_float_def)
  have lv: "n + 1 \<noteq> 0" "n + 1 - 1 = n" using step.hyps by simp_all
  obtain c1 where c1: "koch_curve t ?l n = Some (Returned (), t @ c1)"
      "forwards c1 = ?fs" "net_turn c1 = 0"
    using step.IH[of t ?g] by blast
  obtain c2 where c2: "koch_curve ((t @ c1) @ [Left 60]) ?l n
        = Some (Returned (), ((t @ c1) @ [Left 60]) @ c2)"
      "forwards c2 = ?fs" "net_turn c2 = 0"
    using step.IH[of "(t @ c1) @ [Left 60]" ?g] by blast
  let ?t2 = "((t @ c1) @ [Left 60]) @ c2"
  obtain c3 where c3: "koch_curve (?t2 @ [Right 120]) ?l n
        = Some (Returned (), (?t2 @ [Right 120]) @ c3)"
      "forwards c3 = ?fs" "net_turn c3 = 0"
    using step.IH[of "?t2 @ [Right 120]" ?g] by blast
  let ?t3 = "(?t2 @ [Right 120]) @ c3"
  obtain c4 where c4: "koch_curve (?t3 @ [Left 60]) ?l n
        = Some (Returned (), (?t3 @ [Left 60]) @ c4)"
      "forwards c4 = ?fs" "net_turn c4 = 0"
    using step.IH[of "?t3 @ [Left 60]" ?g] by blast
  let ?cs = "c1 @ [Left 60] @ c2 @ [Right 120] @ c3 @ [Left 60] @ c4"
  have "koch_curve t (PyFloat f) (n + 1) = koch_curve (?t3 @ [Left 60]) ?l (n + 1 - 1)"
    by (rule koch_curve_step[OF lv(1) dv, where ta = "t @ c1" and tb = ?t2 and tc = ?t3])
       (simp_all only: lv(2) c1(1) c2(1) c3(1))
  then have "koch_curve t (PyFloat f) (n + 1) = Some (Returned (), (?t3 @ [Left 60]) @ c4)"
    by (simp only: lv(2) c4(1))
  then have run: "koch_curve t (PyFloat f) (n + 1) = Some (Returned (), t @ ?cs)"
    by simp
  have "((\<lambda>x. round64 (x / 3)) ^^ nat n) ((\<lambda>x. round64 (x / 3)) f)
      = (\<lambda>x. round64 (x / 3)) (((\<lambda>x. round64 (x / 3)) ^^ nat n) f)"
    by (rule funpow_swap1[symmetric])
  then have "segment (nat n) ?g = segment (Suc (nat n)) f"
    unfolding segment_def by simp
  moreover have "nat (n + 1) = Suc (nat n)" using step.hyps by simp
  ultimately have seg: "segment (nat n) ?g = segment (nat (n + 1)) f" by simp
  have cnt: "4 ^ nat (n + 1) = 4 ^ nat n + 4 ^ nat n + 4 ^ nat n + (4 ^ nat n :: nat)"
    using step.hyps by (simp add: nat_add_distrib)
  have "forwards ?cs = ?fs @ ?fs @ ?fs @ ?fs"
    by (simp add: forwards_append c1(2) c2(2) c3(2) c4(2))
  also have "\<dots> = replicate (4 ^ nat (n + 1)) (PyFloat (segment (nat (n + 1)) f))"
    unfolding seg cnt by (simp add: replicate_add)
  finally have fw: "forwards ?cs
      = replicate (4 ^ nat (n + 1)) (PyFloat (segment (nat (n + 1)) f))" .
  have nt: "net_turn ?cs = 0"
    by (simp add: net_turn_append c1(3) c2(3) c3(3) c4(3))
  from run fw nt show ?case by blast
qed

lemma koch_curve_converted:
  "level \<noteq> 0 \<Longrightarrow> to_float len = Returned f \<Longrightarrow>
   koch_curve t len level = koch_curve t (PyFloat f) level"
  by (subst (1 2) koch_curve.simps) (simp add: truediv_3_0_def to_float_def)

lemma koch_curve_overflow:
  "level \<noteq> 0 \<Longrightarrow> to_float len = Raised e \<Longrightarrow> koch_curve t len level = Some (Raised e, t)"
  by (subst koch_curve.simps) (simp add: truediv_3_0_def)

lemma to_float_error:
  assumes "to_float len = Returned f"
  shows "\<bar>f - val len\<bar> \<le> rounding_unit * \<bar>val len\<bar> + least_half"
proof (cases len)
  case (PyInt i)
  with assms have "f = round64 (of_int i)"
    by (simp add: to_float_def split: if_splits)
  with PyInt round64_error[of "of_int i"] show ?thesis by (simp add: val_def)
next
  case (PyFloat r)
  with assms have "f = r" by (simp add: to_float_def)
  with PyFloat rounding_unit_bounds(1) least_half_pos show ?thesis by (simp add: val_def)
qed

lemma to_float_too_large:
  "pow2 1024 \<le> of_int i \<Longrightarrow>
   to_float (PyInt i) = Raised (OverflowError ''int too large to convert to float'')"
proof -
  assume "pow2 1024 \<le> of_int i"
  then have "pow2 1024 \<le> round64 (of_int i)" by (rule round64_overflow)
  then have "pow2 1024 \<le> \<bar>round64 (of_int i)\<bar>" by linarith
  then show ?thesis by (simp add: to_float_def)
qed

lemma koch_curve_returns_only_from_0:
  assumes "koch_curve t len level = Some r"
  shows "0 \<le> level \<or> (\<exists>e. to_float len = Raised e)"
proof (rule koch_curve.raw_induct[OF _ assms,
      where P = "\<lambda>_ len level _. 0 \<le> level \<or> (\<exists>e. to_float len = Raised e)"])
  fix k :: "gfx list \<Rightarrow> number \<Rightarrow> int \<Rightarrow> (unit outcome \<times> gfx list) option"
  fix t len level r
  assume IH: "\<And>t len level r. k t len level = Some r \<Longrightarrow>
      0 \<le> level \<or> (\<exists>e. to_float len = Raised e)"
  assume body: "(if level = 0 then Some (Returned (), t @ [Forward len])
      else case truediv_3_0 len of
        Returned len1 \<Rightarrow>
          k t len1 (level - 1) \<bind>
          (\<lambda>(r1, t1).
              case r1 of
                Returned x \<Rightarrow>
                  k (t1 @ [Left 60]) len1 (level - 1) \<bind>
                  (\<lambda>(r2, t2).
                      case r2 of
                        Returned x \<Rightarrow>
                          k (t2 @ [Right 120]) len1 (level - 1) \<bind>
                          (\<lambda>(r3, t3).
                              case r3 of
                                Returned x \<Rightarrow> k (t3 @ [Left 60]) len1 (level - 1)
                              | Raised e \<Rightarrow> Some (Raised e, t3))
                      | Raised e \<Rightarrow> Some (Raised e, t2))
              | Raised e \<Rightarrow> Some (Raised e, t1))
      | Raised e \<Rightarrow> Some (Raised e, t)) = Some r"
  show "0 \<le> level \<or> (\<exists>e. to_float len = Raised e)"
  proof (cases "level = 0")
    case False
    show ?thesis
    proof (cases "to_float len")
      case (Returned f)
      then have dv: "truediv_3_0 len = Returned (PyFloat (round64 (f / 3)))"
        by (simp add: truediv_3_0_def)
      with False body obtain r1 where "k t (PyFloat (round64 (f / 3))) (level - 1) = Some r1"
        by (auto simp: bind_eq_Some_conv)
      then have "0 \<le> level - 1"
        using IH[of t "PyFloat (round64 (f / 3))" "level - 1" r1] by (simp add: to_float_def)
      then show ?thesis by simp
    next
      case (Raised e)
      then show ?thesis by simp
    qed
  qed simp
qed

lemma koch_curve_diverges:
  "level < 0 \<Longrightarrow> to_float len = Returned f \<Longrightarrow> koch_curve t len level = None"
  using koch_curve_returns_only_from_0[of t len level]
  by (cases "koch_curve t len level") auto

lemma round64_in_range:
  assumes "\<bar>x\<bar> < pow2 1023"
  shows "\<bar>round64 x\<bar> < pow2 1024"
proof -
  have "\<bar>round64 x\<bar> \<le> \<bar>x\<bar> + \<bar>round64 x - x\<bar>" by linarith
  also have "\<dots> \<le> \<bar>x\<bar> + (rounding_unit * \<bar>x\<bar> + least_half)"
    using round64_error[of x] by linarith
  also have "rounding_unit * \<bar>x\<bar> \<le> (1 / 2) * \<bar>x\<bar>"
    using rounding_unit_bounds(2) by (rule mult_right_mono) simp
  finally have b: "\<bar>round64 x\<bar> \<le> \<bar>x\<bar> + (\<bar>x\<bar> / 2 + least_half)" by simp
  have "least_half \<le> pow2 1022" unfolding least_half_def by (rule pow2_mono) simp
  moreover have "pow2 (1023 - 1) = pow2 1023 / pow2 1" by (rule pow2_diff)
  then have "pow2 1022 = pow2 1023 / 2" by (simp add: pow2_def[of 1])
  moreover have "pow2 (1024 - 1) = pow2 1024 / pow2 1" by (rule pow2_diff)
  then have "pow2 1023 = pow2 1024 / 2" by (simp add: pow2_def[of 1])
  ultimately show ?thesis using b assms by linarith
qed

lemma to_float_in_range:
  "\<bar>of_int i\<bar> < pow2 1023 \<Longrightarrow> to_float (PyInt i) = Returned (round64 (of_int i))"
  using round64_in_range[of "of_int i"] by (simp add: to_float_def)

lemma truediv_int_in_range:
  "k \<noteq> 0 \<Longrightarrow> \<bar>of_int a / of_int k\<bar> < pow2 1023 \<Longrightarrow>
   truediv_int (PyInt a) k = Returned (PyFloat (round64 (of_int a / of_int k)))"
  using round64_in_range[of "of_int a / of_int k"] by (simp add: truediv_int_def)

text \<open>
  The model on values of the interpreter: quotients that are rounded, ints beyond \<open>2^53\<close>,
  which are rounded (ties to even) when they meet a float, and the exceptions.
\<close>

lemma round64_examples:
  "round64 (1 / 3) = 6004799503160661 / 18014398509481984"
  "round64 1 = 1"
  "round64 300 = 300"
  "round64 100 = 100"
  "round64 (- 150) = - 150"
  "round64 9007199254740993 = 9007199254740992"
  "round64 9007199254740995 = 9007199254740996"
  "round64 (9007199254740992 / 3) = 6004799503160661 / 2"
  "round64 3002399751580331 = 3002399751580331"
  "segment 1 300 = 100"
  "segment 2 100 = 6254999482459023 / 562949953421312"
  by code_simp+

lemma truediv_examples:
  "truediv_3_0 (PyInt 1) = Returned (PyFloat (6004799503160661 / 18014398509481984))"
  "truediv_3_0 (PyInt 300) = Returned (PyFloat 100)"
  "to_float (PyInt 9007199254740993) = Returned 9007199254740992"
  "to_float (PyInt 9007199254740995) = Returned 9007199254740996"
  "truediv_3_0 (PyInt 9007199254740993) = Returned (PyFloat (6004799503160661 / 2))"
  "truediv_int (PyInt 9007199254740993) 3 = Returned (PyFloat 3002399751580331)"
  "truediv_int (PyInt 1) 0 = Raised (ZeroDivisionError ''division by zero'')"
  "to_float (PyInt (10 ^ 400)) = Raised (OverflowError ''int too large to convert to float'')"
    by (simp_all add: truediv_3_0_def to_float_in_range truediv_int_in_range to_float_too_large
      truediv_int_def pow2_def round64_examples segment_def)

text \<open>
  Rounding at work: for \<open>length = 100\<close> and two levels the sixteen segments have the length
  \<open>(100 / 3.0) / 3.0 = 11.111111111111112\<close>, one unit in the last place above the float
  nearest to \<open>100 / 9\<close>.
\<close>

lemma koch_curve_100_2:
  "\<exists>cs. koch_curve [] (PyInt 100) 2 = Some (Returned (), cs)
     \<and> forwards cs = replicate 16 (PyFloat (6254999482459023 / 562949953421312))"
proof -
  have "to_float (PyInt 100) = Returned 100"
    by (simp add: to_float_in_range pow2_def round64_examples)
  then have "koch_curve [] (PyInt 100) 2 = koch_curve [] (PyFloat 100) 2"
    by (intro koch_curve_converted) simp_all
  moreover obtain cs where "koch_curve [] (PyFloat 100) 2 = Some (Returned (), [] @ cs)"
      "forwards cs = replicate (4 ^ nat 2) (PyFloat (segment (nat 2) 100))"
    using koch_curve_float[of 2 "[]" 100] by auto
  ultimately have "koch_curve [] (PyInt 100) 2 = Some (Returned (), cs)
     \<and> forwards cs = replicate 16 (PyFloat (6254999482459023 / 562949953421312))"
    by (simp add: round64_examples)
  then show ?thesis by blast
qed

text \<open>
  With valid arguments the drawing does take place: at level 0 the three sides are three
  forward calls of the given length, each followed by a right turn of 120 degrees.
\<close>

lemma draw_koch_snowflake_level_0:
  "draw_koch_snowflake (PyInt 300) 0 =
     Some (Returned (),
       [Screen, Bgcolor ''white'', Title ''Koch Snowflake - Level 0'', Turtle, Speed 0,
        Color ''blue'', Penup, Goto (PyFloat (- 150)) (PyFloat 100), Pendown,
        Forward (PyInt 300), Right 120, Forward (PyInt 300), Right 120,
        Forward (PyInt 300), Right 120, Hideturtle, Mainloop])"
proof -
  have "truediv_int (neg (PyInt 300)) 2 = Returned (PyFloat (- 150))"
    "truediv_int (PyInt 300) 3 = Returned (PyFloat 100)"
    by (simp_all add: neg_def truediv_int_in_range pow2_def round64_examples)
  then show ?thesis
    by (simp add: draw_koch_snowflake_def val_def koch_curve.simps numeral_3_eq_3
        str_int_def str_nat.simps digit_char_def)
qed

text \<open>
  C5, as the claim states it, holds of every length above zero. The source converts the
  length to a float at the first division by \<open>3.0\<close>, and an int beyond the floats does not
  convert: for \<open>length = 10^400\<close> and \<open>depth = 1\<close> the call raises \<open>OverflowError\<close> and no
  forward call is made.
\<close>

theorem koch_curve_overflow_counterexample:
  "0 < val (PyInt (10 ^ 400))
   \<and> koch_curve [] (PyInt (10 ^ 400)) 1
       = Some (Raised (OverflowError ''int too large to convert to float''), [])
   \<and> forwards [] = []"
proof -
  have "pow2 1024 \<le> of_int (10 ^ 400)" by (simp add: pow2_def)
  then have "to_float (PyInt (10 ^ 400))
      = Raised (OverflowError ''int too large to convert to float'')"
    by (rule to_float_too_large)
  then have "koch_curve [] (PyInt (10 ^ 400)) 1
      = Some (Raised (OverflowError ''int too large to convert to float''), [])"
    by (intro koch_curve_overflow) simp_all
  then show ?thesis by (simp add: val_def)
qed

text \<open>
  C5, amended. For every \<open>depth \<ge> 0\<close> and every length that is a float or an int that
  converts to a float (in particular every such length above zero), a single call
  \<open>koch_curve(t, length, depth)\<close> returns after exactly \<open>4^depth\<close> forward calls, all of one
  length, which is \<open>length / 3^depth\<close> up to the rounding of the floats: the two differ by
  at most \<open>((1 + 2^-53)^(depth+1) - 1) * |length| / 3^depth + 3 * 2^-1075\<close>; and the sum of
  the turn angles the call issues is zero.
\<close>

theorem koch_curve_forwards_and_turns:
  assumes "0 \<le> level" and "to_float len = Returned f"
  shows "\<exists>cs v. koch_curve t len level = Some (Returned (), t @ cs)
      \<and> length (forwards cs) = 4 ^ nat level
      \<and> forwards cs = replicate (4 ^ nat level) v
      \<and> \<bar>val v - val len / 3 ^ nat level\<bar>
          \<le> ((1 + rounding_unit) ^ Suc (nat level) - 1) * (\<bar>val len\<bar> / 3 ^ nat level)
            + 3 * least_half
      \<and> net_turn cs = 0"
proof (cases "level = 0")
  case True
  have "koch_curve t len 0 = Some (Returned (), t @ [Forward len])"
    by (subst koch_curve.simps) simp
  moreover have "0 \<le> rounding_unit * \<bar>val len\<bar> + 3 * least_half"
    using rounding_unit_bounds(1) least_half_pos by simp
  ultimately have "koch_curve t len level = Some (Returned (), t @ [Forward len])
      \<and> length (forwards [Forward len]) = 4 ^ nat level
      \<and> forwards [Forward len] = replicate (4 ^ nat level) len
      \<and> \<bar>val len - val len / 3 ^ nat level\<bar>
          \<le> ((1 + rounding_unit) ^ Suc (nat level) - 1) * (\<bar>val len\<bar> / 3 ^ nat level)
            + 3 * least_half
      \<and> net_turn [Forward len] = 0"
    using True by simp
  then show ?thesis by blast
next
  case False
  from koch_curve_float[OF assms(1), of t f] obtain cs where
    cs: "koch_curve t (PyFloat f) level = Some (Returned (), t @ cs)"
      "forwards cs = replicate (4 ^ nat level) (PyFloat (segment (nat level) f))"
      "net_turn cs = 0"
    by blast
  have run: "koch_curve t len level = Some (Returned (), t @ cs)"
    using koch_curve_converted[OF False assms(2), of t] cs(1) by simp
  have "\<bar>segment (nat level) f - val len / 3 ^ nat level\<bar>
      \<le> ((1 + rounding_unit) ^ Suc (nat level) - 1) * (\<bar>val len\<bar> / 3 ^ nat level)
        + 3 * least_half"
    by (rule segment_error_from[OF to_float_error[OF assms(2)]])
  then have err: "\<bar>val (PyFloat (segment (nat level) f)) - val len / 3 ^ nat level\<bar>
      \<le> ((1 + rounding_unit) ^ Suc (nat level) - 1) * (\<bar>val len\<bar> / 3 ^ nat level)
        + 3 * least_half"
    by (simp add: val_def)
  from cs(2) have "length (forwards cs) = 4 ^ nat level" by simp
  with run cs(2,3) err show ?thesis by blast
qed

theorem koch_curve_forwards_and_turns_witness:
  "(0::int) \<le> 1
   \<and> to_float (PyInt 300) = Returned 300
   \<and> (\<exists>cs v. koch_curve [] (PyInt 300) 1 = Some (Returned (), [] @ cs)
      \<and> length (forwards cs) = 4 ^ nat 1
      \<and> forwards cs = replicate (4 ^ nat 1) v
      \<and> \<bar>val v - val (PyInt 300) / 3 ^ nat 1\<bar>
          \<le> ((1 + rounding_unit) ^ Suc (nat 1) - 1) * (\<bar>val (PyInt 300)\<bar> / 3 ^ nat 1)
            + 3 * least_half
      \<and> net_turn cs = 0)"
proof -
  have l: "(0::int) \<le> 1" by simp
  have c: "to_float (PyInt 300) = Returned 300"
    by (simp add: to_float_in_range pow2_def round64_examples)
  from l c koch_curve_forwards_and_turns[OF l c, of "[]"] show ?thesis by blast
qed

text \<open>That run, by evaluation: four segments of length \<open>100.0\<close>.\<close>

lemma koch_curve_300_1:
  "koch_curve [] (PyInt 300) 1 =
     Some (Returned (),
       [Forward (PyFloat 100), Left 60, Forward (PyFloat 100), Right 120,
        Forward (PyFloat 100), Left 60, Forward (PyFloat 100)])"
  by (simp add: koch_curve.simps truediv_examples)

text \<open>
  C7. For every \<open>level < 0\<close> or \<open>length \<le> 0\<close>, \<open>draw_koch_snowflake(length, level)\<close> fails
  with a \<open>ValueError\<close> before any graphics call is made.
\<close>

theorem draw_koch_snowflake_rejects_before_drawing:
  "level < 0 \<or> val len \<le> 0 \<Longrightarrow>
   \<exists>m. draw_koch_snowflake len level = Some (Raised (ValueError m), [])"
  by (auto simp: draw_koch_snowflake_def)

theorem draw_koch_snowflake_rejects_before_drawing_witness:
  "(- 1 :: int) < 0
   \<and> draw_koch_snowflake (PyInt 300) (- 1)
       = Some (Raised (ValueError ''Recursion level must be non-negative''), [])
   \<and> val (PyFloat 0) \<le> 0
   \<and> draw_koch_snowflake (PyFloat 0) 3 = Some (Raised (ValueError ''Length must be positive''), [])"
  using draw_koch_snowflake_rejects_before_drawing[of "- 1" "PyInt 300"]
    draw_koch_snowflake_rejects_before_drawing[of 3 "PyFloat 0"]
  by (simp add: draw_koch_snowflake_def val_def)

end
